theory Spec2Isabelle
  imports Complex_Main "HOL-Library.Monad_Syntax"
begin

section \<open>Teeko2 player: data model\<close>

text \<open>
  A board is the list of lists of one-character strings of \<^verbatim>\<open>game.py\<close>; a cell
  holds \<^verbatim>\<open>' '\<close>, \<^verbatim>\<open>'b'\<close> or \<^verbatim>\<open>'r'\<close>. Coordinates are Python integers. A move
  is the list of tuples \<^verbatim>\<open>[(row, col)]\<close> or \<^verbatim>\<open>[(row, col), (source_row, source_col)]\<close>.
  Scores mix the integers \<^verbatim>\<open>1\<close>, \<^verbatim>\<open>-1\<close>, \<^verbatim>\<open>0\<close>, \<^verbatim>\<open>1000\<close> with the float
  literals of the heuristic; they are modelled as real numbers, so float rounding is
  idealised away.

  A Python \<^verbatim>\<open>IndexError\<close> is the value \<open>None\<close>: every function that indexes a
  board returns an option.
\<close>

type_synonym board = "char list list"
type_synonym coord = "int \<times> int"
type_synonym move = "coord list"

text \<open>
  The fields of \<^verbatim>\<open>Teeko2Player\<close> that the search reads. \<^verbatim>\<open>drop_phase_check\<close> is
  the phase counter that \<^verbatim>\<open>make_move\<close> increments.
\<close>

record player =
  my_piece :: char
  opp :: char
  drop_phase_check :: int

definition pieces :: "char list" where
  "pieces = [CHR ''b'', CHR ''r'']"

text \<open>\<^verbatim>\<open>__init__\<close>, with the outcome of \<^verbatim>\<open>random.choice(self.pieces)\<close> as a parameter.\<close>

definition init_player :: "char \<Rightarrow> player" where
  "init_player choice =
     \<lparr>my_piece = choice,
      opp = (if choice = pieces ! 1 then pieces ! 0 else pieces ! 1),
      drop_phase_check = 0\<rparr>"

text \<open>A player as \<^verbatim>\<open>__init__\<close> builds it, at any value of the phase counter.\<close>

definition valid_player :: "player \<Rightarrow> bool" where
  "valid_player pl \<longleftrightarrow>
     my_piece pl \<in> set pieces \<and>
     opp pl = (if my_piece pl = pieces ! 1 then pieces ! 0 else pieces ! 1)"

subsection \<open>Python list indexing\<close>

text \<open>\<^verbatim>\<open>xs[i]\<close>: a negative index counts from the end, anything else out of range raises.\<close>

definition getitem :: "'a list \<Rightarrow> int \<Rightarrow> 'a option" where
  "getitem xs i =
     (if 0 \<le> i \<and> i < int (length xs) then Some (xs ! nat i)
      else if i < 0 \<and> - int (length xs) \<le> i then Some (xs ! nat (int (length xs) + i))
      else None)"

text \<open>\<^verbatim>\<open>xs[i] = v\<close>, returning the updated list.\<close>

definition setitem :: "'a list \<Rightarrow> int \<Rightarrow> 'a \<Rightarrow> 'a list option" where
  "setitem xs i v =
     (if 0 \<le> i \<and> i < int (length xs) then Some (xs[nat i := v])
      else if i < 0 \<and> - int (length xs) \<le> i then Some (xs[nat (int (length xs) + i) := v])
      else None)"

text \<open>\<^verbatim>\<open>state[r][c]\<close> and \<^verbatim>\<open>state[r][c] = v\<close>.\<close>

definition cell :: "'a list list \<Rightarrow> int \<Rightarrow> int \<Rightarrow> 'a option" where
  "cell state r c = do { row \<leftarrow> getitem state r; getitem row c }"

definition set_cell :: "'a list list \<Rightarrow> int \<Rightarrow> int \<Rightarrow> 'a \<Rightarrow> 'a list list option" where
  "set_cell state r c v =
     do { row \<leftarrow> getitem state r; row' \<leftarrow> setitem row c v; setitem state r row' }"

text \<open>\<^verbatim>\<open>range(n)\<close> and \<^verbatim>\<open>range(a, b)\<close>.\<close>

definition range1 :: "int \<Rightarrow> int list" where
  "range1 n = [0..n - 1]"

definition range2 :: "int \<Rightarrow> int \<Rightarrow> int list" where
  "range2 a b = [a..b - 1]"

text \<open>The boards the game is played on: five rows of five cells.\<close>

definition wf_board :: "'a list list \<Rightarrow> bool" where
  "wf_board state \<longleftrightarrow> length state = 5 \<and> (\<forall>row \<in> set state. length row = 5)"

section \<open>Successor generation\<close>

text \<open>
  A \<^verbatim>\<open>for\<close> loop whose body appends to \<^verbatim>\<open>successors\<close>: the body returns the entries
  it appends, and an exception in the body ends the loop.
\<close>

fun collect :: "('a \<Rightarrow> 'b list option) \<Rightarrow> 'a list \<Rightarrow> 'b list option" where
  "collect f [] = Some []"
| "collect f (x # xs) =
     (case f x of None \<Rightarrow> None
      | Some ys \<Rightarrow> (case collect f xs of None \<Rightarrow> None | Some zs \<Rightarrow> Some (ys @ zs)))"

text \<open>
  The body of the drop-phase loops of \<^verbatim>\<open>succ\<close>. \<^verbatim>\<open>copy.deepcopy(state)\<close> is the
  board value itself; the assignment to the copy gives a new value.
\<close>

definition drop_at :: "board \<Rightarrow> char \<Rightarrow> int \<Rightarrow> int \<Rightarrow> (move \<times> board) list option" where
  "drop_at state turn_piece row col =
     do { x \<leftarrow> cell state row col;
          if x = CHR '' '' then
            do { new_state \<leftarrow> set_cell state row col turn_piece;
                 Some [([(row, col)], new_state)] }
          else Some [] }"

text \<open>
  The body of the two inner loops of the relocation branch, for one offset \<open>(i, j)\<close>.
  The conjunction is evaluated left to right, so the board is only read at an offset
  inside the grid; the destination is written before the source is cleared.
\<close>

definition slide_to ::
  "board \<Rightarrow> char \<Rightarrow> int \<Rightarrow> int \<Rightarrow> int \<Rightarrow> int \<Rightarrow> (move \<times> board) list option" where
  "slide_to state turn_piece row col i j =
     (if (i \<noteq> 0 \<or> j \<noteq> 0) \<and> row + i \<in> set (range1 5) \<and> col + j \<in> set (range1 5) then
        do { x \<leftarrow> cell state (row + i) (col + j);
             if x = CHR '' '' then
               do { new_state \<leftarrow> set_cell state (row + i) (col + j) turn_piece;
                    new_state \<leftarrow> set_cell new_state row col (CHR '' '');
                    Some [([(row + i, col + j), (row, col)], new_state)] }
             else Some [] }
      else Some [])"

definition slide_from :: "board \<Rightarrow> char \<Rightarrow> int \<Rightarrow> int \<Rightarrow> (move \<times> board) list option" where
  "slide_from state turn_piece row col =
     do { x \<leftarrow> cell state row col;
          if x = turn_piece then
            collect (\<lambda>i. collect (\<lambda>j. slide_to state turn_piece row col i j) (range2 (- 1) 2))
              (range2 (- 1) 2)
          else Some [] }"

definition succ :: "player \<Rightarrow> board \<Rightarrow> char \<Rightarrow> (move \<times> board) list option" where
  "succ pl state turn_piece =
     (if drop_phase_check pl < 9 then
        collect (\<lambda>row. collect (\<lambda>col. drop_at state turn_piece row col) (range1 5)) (range1 5)
      else
        collect (\<lambda>row. collect (\<lambda>col. slide_from state turn_piece row col) (range1 5))
          (range1 5))"

section \<open>Terminal detection\<close>

text \<open>
  A scanning loop with an early \<^verbatim>\<open>return\<close>: the body gives \<open>None\<close> when it raises,
  \<open>Some (Some v)\<close> when it returns \<open>v\<close>, and \<open>Some None\<close> when the loop goes on.
\<close>

fun scan :: "('a \<Rightarrow> 'r option option) \<Rightarrow> 'a list \<Rightarrow> 'r option option" where
  "scan f [] = Some None"
| "scan f (x # xs) =
     (case f x of None \<Rightarrow> None
      | Some (Some v) \<Rightarrow> Some (Some v)
      | Some None \<Rightarrow> scan f xs)"

text \<open>
  \<^verbatim>\<open>a != ' ' and a == b == c == d\<close>, each operand read only when the ones before it
  did not settle the test.
\<close>

definition run_of_four ::
  "char option \<Rightarrow> char option \<Rightarrow> char option \<Rightarrow> char option \<Rightarrow> bool option" where
  "run_of_four a b c d =
     do { x \<leftarrow> a;
          if x = CHR '' '' then Some False
          else do { y \<leftarrow> b;
                    if x \<noteq> y then Some False
                    else do { z \<leftarrow> c;
                              if y \<noteq> z then Some False
                              else do { w \<leftarrow> d; Some (z = w) } } } }"

text \<open>\<^verbatim>\<open>return 1 if a == self.my_piece else -1\<close>, taken when the test holds.\<close>

definition winner_of :: "player \<Rightarrow> char option \<Rightarrow> bool option \<Rightarrow> int option option" where
  "winner_of pl a test =
     do { t \<leftarrow> test;
          if t then do { x \<leftarrow> a; Some (Some (if x = my_piece pl then 1 else - 1)) }
          else Some None }"

definition horizontal :: "player \<Rightarrow> board \<Rightarrow> int option option" where
  "horizontal pl state =
     scan (\<lambda>row. scan (\<lambda>i. winner_of pl (getitem row i)
               (run_of_four (getitem row i) (getitem row (i + 1))
                  (getitem row (i + 2)) (getitem row (i + 3))))
             (range1 2))
       state"

definition vertical :: "player \<Rightarrow> board \<Rightarrow> int option option" where
  "vertical pl state =
     scan (\<lambda>col. scan (\<lambda>i. winner_of pl (cell state i col)
               (run_of_four (cell state i col) (cell state (i + 1) col)
                  (cell state (i + 2) col) (cell state (i + 3) col)))
             (range1 2))
       (range1 5)"

definition diagonal_down :: "player \<Rightarrow> board \<Rightarrow> int option option" where
  "diagonal_down pl state =
     scan (\<lambda>row. scan (\<lambda>col. winner_of pl (cell state row col)
               (run_of_four (cell state row col) (cell state (row + 1) (col + 1))
                  (cell state (row + 2) (col + 2)) (cell state (row + 3) (col + 3))))
             (range1 2))
       (range1 2)"

definition diagonal_up :: "player \<Rightarrow> board \<Rightarrow> int option option" where
  "diagonal_up pl state =
     scan (\<lambda>row. scan (\<lambda>col. winner_of pl (cell state row (4 - col))
               (run_of_four (cell state row (4 - col)) (cell state (row + 1) (3 - col))
                  (cell state (row + 2) (2 - col)) (cell state (row + 3) (1 - col))))
             (range1 2))
       (range1 2)"

text \<open>
  \<^verbatim>\<open>a != ' ' and m == ' ' and a == b == c == d\<close> for the corners of a 3x3 square
  with centre \<open>m\<close>.
\<close>

definition box_test ::
  "char option \<Rightarrow> char option \<Rightarrow> char option \<Rightarrow> char option \<Rightarrow> char option \<Rightarrow> bool option"
  where
  "box_test a m b c d =
     do { x \<leftarrow> a;
          if x = CHR '' '' then Some False
          else do { y \<leftarrow> m;
                    if y \<noteq> CHR '' '' then Some False
                    else run_of_four a b c d } }"

definition box :: "player \<Rightarrow> board \<Rightarrow> int option option" where
  "box pl state =
     scan (\<lambda>row. scan (\<lambda>col. winner_of pl (cell state row col)
               (box_test (cell state row col) (cell state (row + 1) (col + 1))
                  (cell state row (col + 2)) (cell state (row + 2) col)
                  (cell state (row + 2) (col + 2))))
             (range1 3))
       (range1 3)"

text \<open>The five scans in the order of the source; the first \<^verbatim>\<open>return\<close> reached wins.\<close>

definition game_value :: "player \<Rightarrow> board \<Rightarrow> int option" where
  "game_value pl state =
     (case scan (\<lambda>check. check pl state)
             [horizontal, vertical, diagonal_down, diagonal_up, box] of
        None \<Rightarrow> None
      | Some (Some v) \<Rightarrow> Some v
      | Some None \<Rightarrow> Some 0)"

section \<open>Heuristic evaluation\<close>

text \<open>A \<^verbatim>\<open>for\<close> loop that updates a running value; an exception in the body ends it.\<close>

fun accumulate :: "('s \<Rightarrow> 'a \<Rightarrow> 's option) \<Rightarrow> 's \<Rightarrow> 'a list \<Rightarrow> 's option" where
  "accumulate f v [] = Some v"
| "accumulate f v (x # xs) =
     (case f v x of None \<Rightarrow> None | Some v' \<Rightarrow> accumulate f v' xs)"

text \<open>The table \<^verbatim>\<open>weight\<close> as the body of \<^verbatim>\<open>heuristic_game_value\<close> builds it.\<close>

definition weight :: "real list list" where
  "weight =
     (let a = 0.05; b = 0.1; c = 0.2
      in [[c, c, c, c, c],
          [c, b, b, b, c],
          [c, b, a, b, c],
          [c, b, b, b, c],
          [c, c, c, c, c]])"

definition heuristic_step :: "player \<Rightarrow> board \<Rightarrow> int \<Rightarrow> real \<Rightarrow> int \<Rightarrow> real option" where
  "heuristic_step pl state row heuristic_val col =
     do { x \<leftarrow> cell state row col;
          if x = my_piece pl then
            do { w \<leftarrow> cell weight row col; Some (heuristic_val + w) }
          else if x = opp pl then
            do { w \<leftarrow> cell weight row col; Some (heuristic_val - w) }
          else Some heuristic_val }"

definition heuristic_game_value :: "player \<Rightarrow> board \<Rightarrow> real option" where
  "heuristic_game_value pl state =
     (if drop_phase_check pl < 3 then
        accumulate (\<lambda>v row. accumulate (heuristic_step pl state row) v (range1 5)) 0 (range1 5)
      else Some 0)"

section \<open>Alpha-beta search\<close>

text \<open>
  \<^verbatim>\<open>max_value\<close> and \<^verbatim>\<open>min_value\<close> with their \<^verbatim>\<open>for\<close> loops over the successors.
  The depth is a natural number: the only caller passes 2 and every recursive call
  passes \<^verbatim>\<open>depth-1\<close> from a depth that is not 0. The loops carry the depth already
  decremented. The loop of \<^verbatim>\<open>min_value\<close> also carries \<^verbatim>\<open>state\<close>, which its body
  passes to \<^verbatim>\<open>max_value\<close>.
\<close>

function max_value :: "player \<Rightarrow> board \<Rightarrow> nat \<Rightarrow> real \<Rightarrow> real \<Rightarrow> real option"
  and max_loop :: "player \<Rightarrow> (move \<times> board) list \<Rightarrow> nat \<Rightarrow> real \<Rightarrow> real \<Rightarrow> real option"
  and min_value :: "player \<Rightarrow> board \<Rightarrow> nat \<Rightarrow> real \<Rightarrow> real \<Rightarrow> real option"
  and min_loop ::
    "player \<Rightarrow> board \<Rightarrow> (move \<times> board) list \<Rightarrow> nat \<Rightarrow> real \<Rightarrow> real \<Rightarrow> real option"
where
  "max_value pl state depth alpha beta =
     (case game_value pl state of None \<Rightarrow> None
      | Some terminal_val \<Rightarrow>
          if terminal_val \<noteq> 0 then Some (real_of_int terminal_val)
          else if depth = 0 then heuristic_game_value pl state
          else (case succ pl state (my_piece pl) of None \<Rightarrow> None
                | Some successors \<Rightarrow> max_loop pl successors (depth - 1) alpha beta))"
| "max_loop pl [] d alpha beta = Some alpha"
| "max_loop pl ((move, successor) # rest) d alpha beta =
     (case min_value pl successor d alpha beta of None \<Rightarrow> None
      | Some v \<Rightarrow>
          if max alpha v \<ge> beta then Some beta
          else max_loop pl rest d (max alpha v) beta)"
| "min_value pl state depth alpha beta =
     (case game_value pl state of None \<Rightarrow> None
      | Some terminal_val \<Rightarrow>
          if terminal_val \<noteq> 0 then Some (real_of_int terminal_val)
          else if depth = 0 then heuristic_game_value pl state
          else (case succ pl state (opp pl) of None \<Rightarrow> None
                | Some successors \<Rightarrow> min_loop pl state successors (depth - 1) alpha beta))"
| "min_loop pl state [] d alpha beta = Some beta"
| "min_loop pl state ((move, successor) # rest) d alpha beta =
     (case max_value pl state d alpha beta of None \<Rightarrow> None
      | Some v \<Rightarrow>
          if alpha \<ge> min beta v then Some alpha
          else min_loop pl state rest d alpha (min beta v))"
  by pat_completeness auto
termination
  by (relation "measures
        [\<lambda>x. case x of
            Inl (Inl (pl, state, depth, alpha, beta)) \<Rightarrow> 2 * depth
          | Inl (Inr (pl, successors, d, alpha, beta)) \<Rightarrow> 2 * d + 1
          | Inr (Inl (pl, state, depth, alpha, beta)) \<Rightarrow> 2 * depth
          | Inr (Inr (pl, state, successors, d, alpha, beta)) \<Rightarrow> 2 * d + 1,
         \<lambda>x. case x of
            Inl (Inl (pl, state, depth, alpha, beta)) \<Rightarrow> 0
          | Inl (Inr (pl, successors, d, alpha, beta)) \<Rightarrow> length successors
          | Inr (Inl (pl, state, depth, alpha, beta)) \<Rightarrow> 0
          | Inr (Inr (pl, state, successors, d, alpha, beta)) \<Rightarrow> length successors]")
    auto

section \<open>Move selection\<close>

text \<open>
  The loop of \<^verbatim>\<open>make_move\<close> over all successors, with the running
  \<^verbatim>\<open>best_move, best_successor\<close>; both calls of \<^verbatim>\<open>min_value\<close> are made at every
  iteration, as in the source.
\<close>

fun best_of :: "player \<Rightarrow> move \<times> board \<Rightarrow> (move \<times> board) list \<Rightarrow> move option" where
  "best_of pl (best_move, best_successor) [] = Some best_move"
| "best_of pl (best_move, best_successor) ((move, successor) # rest) =
     (case min_value pl successor 2 (- 1000) 1000 of None \<Rightarrow> None
      | Some v \<Rightarrow>
          (case min_value pl best_successor 2 (- 1000) 1000 of None \<Rightarrow> None
           | Some w \<Rightarrow>
               if v > w then best_of pl (move, successor) rest
               else best_of pl (best_move, best_successor) rest))"

text \<open>
  \<^verbatim>\<open>make_move\<close> returns the player with the phase counter updated, and the move, or
  \<open>None\<close> for the \<^verbatim>\<open>IndexError\<close> of \<^verbatim>\<open>successors[0]\<close> on an empty list (or of a
  malformed board).
\<close>

definition bump_phase :: "player \<Rightarrow> player" where
  "bump_phase pl =
     (let d = drop_phase_check pl + 2
      in pl\<lparr>drop_phase_check := (if my_piece pl = CHR ''b'' \<and> d = 2 then d - 1 else d)\<rparr>)"

definition make_move :: "player \<Rightarrow> board \<Rightarrow> player \<times> move option" where
  "make_move pl state =
     (let pl' = bump_phase pl
      in (pl', case succ pl' state (my_piece pl') of None \<Rightarrow> None
               | Some [] \<Rightarrow> None
               | Some (first # rest) \<Rightarrow> best_of pl' first (first # rest)))"

section \<open>Successor generation over a store\<close>

text \<open>
  In Python a board is a list object that refers to five row objects, and \<^verbatim>\<open>succ\<close>
  writes into the result of \<^verbatim>\<open>copy.deepcopy(state)\<close>. To state that the caller's
  board is not written to, \<^verbatim>\<open>succ\<close> is modelled a second time over a store of list
  objects: a row holds its characters, a board holds the addresses of its rows, and a
  new object takes the next unused address.
\<close>

type_synonym addr = nat

datatype pyobj = Row "char list" | Grid "addr list"

record store =
  objects :: "addr \<Rightarrow> pyobj option"
  fresh :: addr

definition allocate :: "store \<Rightarrow> pyobj \<Rightarrow> addr \<times> store" where
  "allocate h ob = (fresh h, \<lparr>objects = (objects h)(fresh h \<mapsto> ob), fresh = Suc (fresh h)\<rparr>)"

text \<open>
  \<^verbatim>\<open>copy.deepcopy\<close> of a board: a new outer list, and for every row a new list with
  the same items (strings are not copied). The memo of \<^verbatim>\<open>deepcopy\<close> maps a row that
  was copied already to its copy, so that a row occurring twice is copied once. The
  result is \<open>None\<close> when the address does not hold a list of rows: such a store is
  not a board of the program.
\<close>

fun copy_rows :: "store \<Rightarrow> (addr \<rightharpoonup> addr) \<Rightarrow> addr list \<Rightarrow> (addr list \<times> store) option" where
  "copy_rows h memo [] = Some ([], h)"
| "copy_rows h memo (a # as) =
     (case memo a of
        Some a' \<Rightarrow>
          (case copy_rows h memo as of None \<Rightarrow> None
           | Some (bs, h') \<Rightarrow> Some (a' # bs, h'))
      | None \<Rightarrow>
          (case objects h a of
             Some (Row xs) \<Rightarrow>
               (case copy_rows (snd (allocate h (Row xs)))
                       (memo(a \<mapsto> fst (allocate h (Row xs)))) as of
                  None \<Rightarrow> None
                | Some (bs, h') \<Rightarrow> Some (fst (allocate h (Row xs)) # bs, h'))
           | _ \<Rightarrow> None))"

definition deepcopy :: "store \<Rightarrow> addr \<Rightarrow> (addr \<times> store) option" where
  "deepcopy h a =
     (case objects h a of
        Some (Grid rs) \<Rightarrow>
          (case copy_rows (snd (allocate h (Grid []))) Map.empty rs of
             None \<Rightarrow> None
           | Some (rs', h') \<Rightarrow>
               Some (fresh h, h'\<lparr>objects := (objects h')(fresh h \<mapsto> Grid rs')\<rparr>))
      | _ \<Rightarrow> None)"

text \<open>\<^verbatim>\<open>state[r][c]\<close> and \<^verbatim>\<open>state[r][c] = v\<close> on a board in the store; the assignment
  writes into the row object.\<close>

definition load_cell :: "store \<Rightarrow> addr \<Rightarrow> int \<Rightarrow> int \<Rightarrow> char option" where
  "load_cell h a r c =
     (case objects h a of
        Some (Grid rs) \<Rightarrow>
          (case getitem rs r of
             Some ra \<Rightarrow> (case objects h ra of Some (Row xs) \<Rightarrow> getitem xs c | _ \<Rightarrow> None)
           | None \<Rightarrow> None)
      | _ \<Rightarrow> None)"

definition store_cell :: "store \<Rightarrow> addr \<Rightarrow> int \<Rightarrow> int \<Rightarrow> char \<Rightarrow> store option" where
  "store_cell h a r c v =
     (case objects h a of
        Some (Grid rs) \<Rightarrow>
          (case getitem rs r of
             Some ra \<Rightarrow>
               (case objects h ra of
                  Some (Row xs) \<Rightarrow>
                    (case setitem xs c v of
                       Some xs' \<Rightarrow> Some (h\<lparr>objects := (objects h)(ra \<mapsto> Row xs')\<rparr>)
                     | None \<Rightarrow> None)
                | _ \<Rightarrow> None)
           | None \<Rightarrow> None)
      | _ \<Rightarrow> None)"

text \<open>The loops and bodies of \<^verbatim>\<open>succ\<close> as above, threading the store; an entry pairs
  the move with the address of the new board.\<close>

fun collect_store ::
  "('a \<Rightarrow> store \<Rightarrow> ('b list \<times> store) option) \<Rightarrow> 'a list \<Rightarrow> store \<Rightarrow> ('b list \<times> store) option"
  where
  "collect_store f [] h = Some ([], h)"
| "collect_store f (x # xs) h =
     (case f x h of None \<Rightarrow> None
      | Some (ys, h') \<Rightarrow>
          (case collect_store f xs h' of None \<Rightarrow> None
           | Some (zs, h'') \<Rightarrow> Some (ys @ zs, h'')))"

definition drop_at_store ::
  "addr \<Rightarrow> char \<Rightarrow> int \<Rightarrow> int \<Rightarrow> store \<Rightarrow> ((move \<times> addr) list \<times> store) option" where
  "drop_at_store state turn_piece row col h =
     (case load_cell h state row col of None \<Rightarrow> None
      | Some x \<Rightarrow>
          if x = CHR '' '' then
            (case deepcopy h state of None \<Rightarrow> None
             | Some (new_state, h') \<Rightarrow>
                 (case store_cell h' new_state row col turn_piece of None \<Rightarrow> None
                  | Some h'' \<Rightarrow> Some ([([(row, col)], new_state)], h'')))
          else Some ([], h))"

definition slide_to_store ::
  "addr \<Rightarrow> char \<Rightarrow> int \<Rightarrow> int \<Rightarrow> int \<Rightarrow> int \<Rightarrow> store
    \<Rightarrow> ((move \<times> addr) list \<times> store) option" where
  "slide_to_store state turn_piece row col i j h =
     (if (i \<noteq> 0 \<or> j \<noteq> 0) \<and> row + i \<in> set (range1 5) \<and> col + j \<in> set (range1 5) then
        (case load_cell h state (row + i) (col + j) of None \<Rightarrow> None
         | Some x \<Rightarrow>
             if x = CHR '' '' then
               (case deepcopy h state of None \<Rightarrow> None
                | Some (new_state, h1) \<Rightarrow>
                    (case store_cell h1 new_state (row + i) (col + j) turn_piece of
                       None \<Rightarrow> None
                     | Some h2 \<Rightarrow>
                         (case store_cell h2 new_state row col (CHR '' '') of None \<Rightarrow> None
                          | Some h3 \<Rightarrow>
                              Some ([([(row + i, col + j), (row, col)], new_state)], h3))))
             else Some ([], h))
      else Some ([], h))"

definition slide_from_store ::
  "addr \<Rightarrow> char \<Rightarrow> int \<Rightarrow> int \<Rightarrow> store \<Rightarrow> ((move \<times> addr) list \<times> store) option" where
  "slide_from_store state turn_piece row col h =
     (case load_cell h state row col of None \<Rightarrow> None
      | Some x \<Rightarrow>
          if x = turn_piece then
            collect_store
              (\<lambda>i. collect_store (\<lambda>j. slide_to_store state turn_piece row col i j)
                 (range2 (- 1) 2))
              (range2 (- 1) 2) h
          else Some ([], h))"

definition succ_store ::
  "player \<Rightarrow> addr \<Rightarrow> char \<Rightarrow> store \<Rightarrow> ((move \<times> addr) list \<times> store) option" where
  "succ_store pl state turn_piece =
     (if drop_phase_check pl < 9 then
        collect_store (\<lambda>row. collect_store (\<lambda>col. drop_at_store state turn_piece row col)
          (range1 5)) (range1 5)
      else
        collect_store (\<lambda>row. collect_store (\<lambda>col. slide_from_store state turn_piece row col)
          (range1 5)) (range1 5))"

section \<open>Notions used in the statements\<close>

text \<open>The board with one cell overwritten, for boards and coordinates inside the grid.\<close>

definition put :: "board \<Rightarrow> int \<Rightarrow> int \<Rightarrow> char \<Rightarrow> board" where
  "put state r c v = state[nat r := (state ! nat r)[nat c := v]]"

text \<open>The entries that the relocation branch appends for the piece at \<open>(r, c)\<close>.\<close>

definition slides :: "board \<Rightarrow> char \<Rightarrow> int \<Rightarrow> int \<Rightarrow> (move \<times> board) list" where
  "slides state p r c =
     map (\<lambda>(i, j). ([(r + i, c + j), (r, c)], put (put state (r + i) (c + j) p) r c (CHR '' '')))
       (filter (\<lambda>(i, j). (i \<noteq> 0 \<or> j \<noteq> 0) \<and> r + i \<in> {0..4} \<and> c + j \<in> {0..4}
                  \<and> state ! nat (r + i) ! nat (c + j) = CHR '' '')
          (List.product (range2 (- 1) 2) (range2 (- 1) 2)))"

text \<open>Sample inputs: a position of the drop phase with three pieces a side, a position
  after the drop phase, and the player holding \<^verbatim>\<open>'b'\<close> at a given phase counter.\<close>

definition drop_position :: board where
  "drop_position =
     [[CHR '' '', CHR '' '', CHR '' '', CHR '' '', CHR ''r''],
      [CHR '' '', CHR ''b'', CHR '' '', CHR '' '', CHR '' ''],
      [CHR '' '', CHR ''b'', CHR '' '', CHR '' '', CHR '' ''],
      [CHR '' '', CHR ''b'', CHR '' '', CHR ''r'', CHR '' ''],
      [CHR '' '', CHR ''r'', CHR '' '', CHR '' '', CHR '' '']]"

definition late_position :: board where
  "late_position =
     [[CHR '' '', CHR '' '', CHR '' '', CHR '' '', CHR ''r''],
      [CHR '' '', CHR ''b'', CHR '' '', CHR ''r'', CHR '' ''],
      [CHR '' '', CHR ''b'', CHR ''r'', CHR '' '', CHR '' ''],
      [CHR '' '', CHR ''b'', CHR '' '', CHR ''b'', CHR '' ''],
      [CHR '' '', CHR ''r'', CHR '' '', CHR '' '', CHR '' '']]"

definition black :: "int \<Rightarrow> player" where
  "black d = (init_player (CHR ''b''))\<lparr>drop_phase_check := d\<rparr>"

text \<open>
  The five pattern families that \<^verbatim>\<open>game_value\<close> scans for, as predicates: four equal
  cells in a row of the board, in a column, on a falling or on a rising diagonal, and the
  corners of a 3x3 square with an empty centre.
\<close>

definition row_pattern :: "board \<Rightarrow> char \<Rightarrow> bool" where
  "row_pattern state p \<longleftrightarrow>
     (\<exists>row \<in> set state. \<exists>i \<in> {0..1}.
         getitem row i = Some p \<and> getitem row (i + 1) = Some p
         \<and> getitem row (i + 2) = Some p \<and> getitem row (i + 3) = Some p)"

definition column_pattern :: "board \<Rightarrow> char \<Rightarrow> bool" where
  "column_pattern state p \<longleftrightarrow>
     (\<exists>col \<in> {0..4}. \<exists>i \<in> {0..1}.
         cell state i col = Some p \<and> cell state (i + 1) col = Some p
         \<and> cell state (i + 2) col = Some p \<and> cell state (i + 3) col = Some p)"

definition falling_pattern :: "board \<Rightarrow> char \<Rightarrow> bool" where
  "falling_pattern state p \<longleftrightarrow>
     (\<exists>row \<in> {0..1}. \<exists>col \<in> {0..1}.
         cell state row col = Some p \<and> cell state (row + 1) (col + 1) = Some p
         \<and> cell state (row + 2) (col + 2) = Some p \<and> cell state (row + 3) (col + 3) = Some p)"

definition rising_pattern :: "board \<Rightarrow> char \<Rightarrow> bool" where
  "rising_pattern state p \<longleftrightarrow>
     (\<exists>row \<in> {0..1}. \<exists>col \<in> {0..1}.
         cell state row (4 - col) = Some p \<and> cell state (row + 1) (3 - col) = Some p
         \<and> cell state (row + 2) (2 - col) = Some p \<and> cell state (row + 3) (1 - col) = Some p)"

definition box_pattern :: "board \<Rightarrow> char \<Rightarrow> bool" where
  "box_pattern state p \<longleftrightarrow>
     (\<exists>row \<in> {0..2}. \<exists>col \<in> {0..2}.
         cell state (row + 1) (col + 1) = Some (CHR '' '')
         \<and> cell state row col = Some p \<and> cell state row (col + 2) = Some p
         \<and> cell state (row + 2) col = Some p \<and> cell state (row + 2) (col + 2) = Some p)"

definition has_pattern :: "board \<Rightarrow> char \<Rightarrow> bool" where
  "has_pattern state p \<longleftrightarrow> p \<noteq> CHR '' '' \<and>
     (row_pattern state p \<or> column_pattern state p \<or> falling_pattern state p
      \<or> rising_pattern state p \<or> box_pattern state p)"

text \<open>More sample boards: the initial board, four pieces in the top row, the corners of
  the top-left 3x3 square with a given centre, and those corners together with a row of
  the other colour.\<close>

definition empty_board :: board where
  "empty_board = replicate 5 (replicate 5 (CHR '' ''))"

definition top_row :: "char \<Rightarrow> board" where
  "top_row p =
     [[p, p, p, p, CHR '' ''],
      [CHR '' '', CHR '' '', CHR '' '', CHR '' '', CHR '' ''],
      [CHR '' '', CHR '' '', CHR '' '', CHR '' '', CHR '' ''],
      [CHR '' '', CHR '' '', CHR '' '', CHR '' '', CHR '' ''],
      [CHR '' '', CHR '' '', CHR '' '', CHR '' '', CHR '' '']]"

definition corners :: "char \<Rightarrow> char \<Rightarrow> board" where
  "corners p m =
     [[p, CHR '' '', p, CHR '' '', CHR '' ''],
      [CHR '' '', m, CHR '' '', CHR '' '', CHR '' ''],
      [p, CHR '' '', p, CHR '' '', CHR '' ''],
      [CHR '' '', CHR '' '', CHR '' '', CHR '' '', CHR '' ''],
      [CHR '' '', CHR '' '', CHR '' '', CHR '' '', CHR '' '']]"

definition corners_and_row :: board where
  "corners_and_row =
     [[CHR ''b'', CHR '' '', CHR ''b'', CHR '' '', CHR '' ''],
      [CHR '' '', CHR '' '', CHR '' '', CHR '' '', CHR '' ''],
      [CHR ''b'', CHR '' '', CHR ''b'', CHR '' '', CHR '' ''],
      [CHR '' '', CHR '' '', CHR '' '', CHR '' '', CHR '' ''],
      [CHR ''r'', CHR ''r'', CHR ''r'', CHR ''r'', CHR '' '']]"

text \<open>Exchanging the two colours on a board and in a player; boards that hold nothing
  but the two colours and the empty marker.\<close>

definition swap_piece :: "char \<Rightarrow> char" where
  "swap_piece x = (if x = CHR ''b'' then CHR ''r'' else if x = CHR ''r'' then CHR ''b'' else x)"

definition swap_board :: "board \<Rightarrow> board" where
  "swap_board state = map (map swap_piece) state"

definition swap_player :: "player \<Rightarrow> player" where
  "swap_player pl = pl\<lparr>my_piece := opp pl, opp := my_piece pl\<rparr>"

definition pieces_only :: "board \<Rightarrow> bool" where
  "pieces_only state \<longleftrightarrow> (\<forall>row \<in> set state. set row \<subseteq> insert (CHR '' '') (set pieces))"

text \<open>
  A weighted sum over the 25 cells for a weight function \<open>w\<close>: \<open>w\<close> is added where the
  cell holds the player's piece and subtracted where it holds the opponent's. The weight
  function read off the table of the source, and the one the documentation describes.
\<close>

definition weighted_sum :: "(int \<Rightarrow> int \<Rightarrow> real) \<Rightarrow> player \<Rightarrow> board \<Rightarrow> real" where
  "weighted_sum w pl state =
     (\<Sum>r\<leftarrow>range1 5. \<Sum>c\<leftarrow>range1 5.
        if cell state r c = Some (my_piece pl) then w r c
        else if cell state r c = Some (opp pl) then - w r c
        else 0)"

definition table_weight :: "int \<Rightarrow> int \<Rightarrow> real" where
  "table_weight r c = weight ! nat r ! nat c"

text \<open>
  The weights as the docstring of \<^verbatim>\<open>heuristic_game_value\<close> and the specification
  give them: 0.2 at the centre, 0.1 on the ring around it, 0.05 on the border.
\<close>

definition claimed_weight :: "int \<Rightarrow> int \<Rightarrow> real" where
  "claimed_weight r c =
     (if r = 2 \<and> c = 2 then 0.2
      else if 1 \<le> r \<and> r \<le> 3 \<and> 1 \<le> c \<and> c \<le> 3 then 0.1
      else 0.05)"

text \<open>Boards with one or two black pieces, and a board on which red completes a column
  with its next piece.\<close>

definition centre_only :: board where
  "centre_only =
     [[CHR '' '', CHR '' '', CHR '' '', CHR '' '', CHR '' ''],
      [CHR '' '', CHR '' '', CHR '' '', CHR '' '', CHR '' ''],
      [CHR '' '', CHR '' '', CHR ''b'', CHR '' '', CHR '' ''],
      [CHR '' '', CHR '' '', CHR '' '', CHR '' '', CHR '' ''],
      [CHR '' '', CHR '' '', CHR '' '', CHR '' '', CHR '' '']]"

definition centre_and_ring :: board where
  "centre_and_ring =
     [[CHR '' '', CHR '' '', CHR '' '', CHR '' '', CHR '' ''],
      [CHR '' '', CHR ''b'', CHR '' '', CHR '' '', CHR '' ''],
      [CHR '' '', CHR '' '', CHR ''b'', CHR '' '', CHR '' ''],
      [CHR '' '', CHR '' '', CHR '' '', CHR '' '', CHR '' ''],
      [CHR '' '', CHR '' '', CHR '' '', CHR '' '', CHR '' '']]"

definition corner_only :: board where
  "corner_only =
     [[CHR ''b'', CHR '' '', CHR '' '', CHR '' '', CHR '' ''],
      [CHR '' '', CHR '' '', CHR '' '', CHR '' '', CHR '' ''],
      [CHR '' '', CHR '' '', CHR '' '', CHR '' '', CHR '' ''],
      [CHR '' '', CHR '' '', CHR '' '', CHR '' '', CHR '' ''],
      [CHR '' '', CHR '' '', CHR '' '', CHR '' '', CHR '' '']]"

definition threat_position :: board where
  "threat_position =
     [[CHR ''b'', CHR '' '', CHR '' '', CHR '' '', CHR ''r''],
      [CHR '' '', CHR ''b'', CHR '' '', CHR '' '', CHR ''r''],
      [CHR '' '', CHR ''b'', CHR '' '', CHR '' '', CHR ''r''],
      [CHR '' '', CHR ''b'', CHR '' '', CHR '' '', CHR '' ''],
      [CHR '' '', CHR '' '', CHR '' '', CHR '' '', CHR '' '']]"

text \<open>
  Reading a board off the store; a store in which every address from \<open>fresh\<close> on is
  unused; a later store that keeps every object of an earlier one; a board object whose
  rows are pairwise different objects.
\<close>

definition row_at :: "store \<Rightarrow> addr \<Rightarrow> char list option" where
  "row_at h a = (case objects h a of Some (Row xs) \<Rightarrow> Some xs | _ \<Rightarrow> None)"

fun rows_at :: "store \<Rightarrow> addr list \<Rightarrow> board option" where
  "rows_at h [] = Some []"
| "rows_at h (a # as) =
     (case row_at h a of None \<Rightarrow> None
      | Some xs \<Rightarrow> (case rows_at h as of None \<Rightarrow> None | Some b \<Rightarrow> Some (xs # b)))"

definition board_at :: "store \<Rightarrow> addr \<Rightarrow> board option" where
  "board_at h a = (case objects h a of Some (Grid rs) \<Rightarrow> rows_at h rs | _ \<Rightarrow> None)"

definition store_ok :: "store \<Rightarrow> bool" where
  "store_ok h \<longleftrightarrow> (\<forall>x. fresh h \<le> x \<longrightarrow> objects h x = None)"

definition extends :: "store \<Rightarrow> store \<Rightarrow> bool" where
  "extends h h' \<longleftrightarrow> fresh h \<le> fresh h' \<and> (\<forall>x. x < fresh h \<longrightarrow> objects h' x = objects h x)"

definition holds_board :: "store \<Rightarrow> addr \<Rightarrow> addr list \<Rightarrow> board \<Rightarrow> bool" where
  "holds_board h a rs b \<longleftrightarrow>
     store_ok h \<and> objects h a = Some (Grid rs) \<and> rows_at h rs = Some b"

definition represents :: "store \<Rightarrow> (move \<times> addr) list \<Rightarrow> (move \<times> board) list \<Rightarrow> bool" where
  "represents h es ys \<longleftrightarrow> list_all2 (\<lambda>(m, n) (m', s). m = m' \<and> board_at h n = Some s) es ys"

definition refines ::
  "addr \<Rightarrow> addr list \<Rightarrow> board \<Rightarrow> (store \<Rightarrow> ((move \<times> addr) list \<times> store) option)
    \<Rightarrow> (move \<times> board) list \<Rightarrow> bool" where
  "refines a rs b f ys \<longleftrightarrow>
     (\<forall>h. holds_board h a rs b \<longrightarrow>
        (\<exists>es h'. f h = Some (es, h') \<and> store_ok h' \<and> extends h h' \<and> represents h' es ys))"

definition distinct_rows :: "store \<Rightarrow> addr \<Rightarrow> bool" where
  "distinct_rows h a \<longleftrightarrow> (case objects h a of Some (Grid rs) \<Rightarrow> distinct rs | _ \<Rightarrow> False)"

text \<open>A store that holds the sample drop position at address 5, its rows at 0 to 4.\<close>

definition sample_store :: store where
  "sample_store =
     \<lparr>objects = (\<lambda>x. if x < 5 then Some (Row (drop_position ! x))
                     else if x = 5 then Some (Grid [0, 1, 2, 3, 4]) else None),
      fresh = 6\<rparr>"

section \<open>Indexing inside the grid\<close>

lemma getitem_in_range:
  "0 \<le> i \<Longrightarrow> i < int (length xs) \<Longrightarrow> getitem xs i = Some (xs ! nat i)"
  by (simp add: getitem_def)

lemma setitem_in_range:
  "0 \<le> i \<Longrightarrow> i < int (length xs) \<Longrightarrow> setitem xs i v = Some (xs[nat i := v])"
  by (simp add: setitem_def)

lemma range1_5: "range1 5 = [0, 1, 2, 3, 4]"
  by (simp add: range1_def upto.simps)

lemma range1_2: "range1 2 = [0, 1]"
  by (simp add: range1_def upto.simps)

lemma set_range1: "set (range1 n) = {0..n - 1}"
  by (simp add: range1_def)

lemma wf_board_row: "wf_board state \<Longrightarrow> 0 \<le> r \<Longrightarrow> r < 5 \<Longrightarrow> length (state ! nat r) = 5"
  by (simp add: wf_board_def)

lemma cell_wf:
  "wf_board state \<Longrightarrow> 0 \<le> r \<Longrightarrow> r < 5 \<Longrightarrow> 0 \<le> c \<Longrightarrow> c < 5 \<Longrightarrow>
   cell state r c = Some (state ! nat r ! nat c)"
  by (simp add: cell_def getitem_in_range wf_board_def)

lemma set_cell_wf:
  "wf_board state \<Longrightarrow> 0 \<le> r \<Longrightarrow> r < 5 \<Longrightarrow> 0 \<le> c \<Longrightarrow> c < 5 \<Longrightarrow>
   set_cell state r c v = Some (state[nat r := (state ! nat r)[nat c := v]])"
  by (simp add: set_cell_def getitem_in_range setitem_in_range wf_board_def)

lemma wf_board_update:
  assumes "wf_board state"
  shows "wf_board (state[r := (state ! r)[c := v]])"
proof (cases "r < length state")
  case True
  with assms show ?thesis
    unfolding wf_board_def by (auto dest!: set_update_subset_insert [THEN subsetD])
next
  case False
  then have "state[r := (state ! r)[c := v]] = state"
    by (simp add: list_update_beyond)
  with assms show ?thesis by simp
qed

lemma nth_board_update:
  "wf_board state \<Longrightarrow> r < 5 \<Longrightarrow> c < 5 \<Longrightarrow> r' < 5 \<Longrightarrow> c' < 5 \<Longrightarrow>
   state[r := (state ! r)[c := v]] ! r' ! c' = (if r' = r \<and> c' = c then v else state ! r' ! c')"
  by (auto simp: wf_board_def nth_list_update)

lemma collect_total:
  "(\<And>x. x \<in> set xs \<Longrightarrow> f x = Some (g x)) \<Longrightarrow> collect f xs = Some (concat (map g xs))"
  by (induction xs) auto


lemma length_five: "length xs = 5 \<Longrightarrow> \<exists>a b c d e. xs = [a, b, c, d, e]"
  by (auto simp: length_Suc_conv eval_nat_numeral)

lemma concat_map_if:
  "concat (map (\<lambda>x. if P x then [h x] else []) xs) = map h (filter P xs)"
  by (induction xs) auto

lemma concat_map_product:
  "concat (map (\<lambda>r. map (h r) (filter (P r) cols)) rows) =
   map (\<lambda>(r, c). h r c) (filter (\<lambda>(r, c). P r c) (List.product rows cols))"
  by (induction rows) (auto simp: filter_map comp_def)

lemma length_filter_product:
  "length (filter (\<lambda>(r, c). P r c) (List.product rows cols)) =
   sum_list (map (\<lambda>r. length (filter (P r) cols)) rows)"
  by (induction rows) (auto simp: filter_map comp_def)

lemma count_row:
  assumes "length row = 5"
  shows "length (filter (\<lambda>c. row ! nat c = x) [0, 1, 2, 3, 4]) = count_list row x"
proof -
  from assms obtain a b c d e where "row = [a, b, c, d, e]"
    using length_five by blast
  then show ?thesis by simp
qed

lemma count_board:
  assumes "wf_board state"
  shows "length (filter (\<lambda>(r, c). state ! nat r ! nat c = x)
           (List.product (range1 5) (range1 5))) = count_list (concat state) x"
proof -
  from assms obtain r0 r1 r2 r3 r4 where s: "state = [r0, r1, r2, r3, r4]"
    unfolding wf_board_def using length_five by blast
  with assms have len: "length r0 = 5" "length r1 = 5" "length r2 = 5" "length r3 = 5"
    "length r4 = 5"
    by (simp_all add: wf_board_def)
  have row: "length (filter (\<lambda>c. state ! nat r ! nat c = x) (range1 5)) =
      count_list (state ! nat r) x" if "r \<in> set (range1 5)" for r
    unfolding range1_5
    by (rule count_row, rule wf_board_row) (use that assms in \<open>simp_all add: set_range1\<close>)
  have "length (filter (\<lambda>(r, c). state ! nat r ! nat c = x)
           (List.product (range1 5) (range1 5))) =
        sum_list (map (\<lambda>r. count_list (state ! nat r) x) (range1 5))"
    unfolding length_filter_product
    by (rule arg_cong [where f = sum_list], rule map_cong) (simp_all add: row)
  also have "\<dots> = count_list (concat state) x"
    by (simp add: s range1_5)
  finally show ?thesis .
qed

lemma drop_at_wf:
  assumes "wf_board state" "r \<in> set (range1 5)" "c \<in> set (range1 5)"
  shows "drop_at state p r c =
    Some (if state ! nat r ! nat c = CHR '' '' then [([(r, c)], put state r c p)] else [])"
  using assms by (simp add: drop_at_def cell_wf set_cell_wf set_range1 put_def)

lemma succ_drop:
  assumes "wf_board state" "drop_phase_check pl < 9"
  shows "succ pl state p =
    Some (map (\<lambda>(r, c). ([(r, c)], put state r c p))
      (filter (\<lambda>(r, c). state ! nat r ! nat c = CHR '' '')
         (List.product (range1 5) (range1 5))))"
proof -
  have "collect (\<lambda>col. drop_at state p row col) (range1 5) =
      Some (map (\<lambda>c. ([(row, c)], put state row c p))
        (filter (\<lambda>c. state ! nat row ! nat c = CHR '' '') (range1 5)))"
    if "row \<in> set (range1 5)" for row
    using assms(1) that
    by (subst collect_total [where g = "\<lambda>c. if state ! nat row ! nat c = CHR '' ''
          then [([(row, c)], put state row c p)] else []"])
      (simp_all add: drop_at_wf concat_map_if)
  then have "collect (\<lambda>row. collect (\<lambda>col. drop_at state p row col) (range1 5)) (range1 5) =
      Some (concat (map (\<lambda>r. map (\<lambda>c. ([(r, c)], put state r c p))
        (filter (\<lambda>c. state ! nat r ! nat c = CHR '' '') (range1 5))) (range1 5)))"
    by (rule collect_total)
  then show ?thesis
    using assms(2) by (simp add: succ_def concat_map_product)
qed


lemma wf_board_put: "wf_board state \<Longrightarrow> wf_board (put state r c v)"
  by (simp add: put_def wf_board_update)

lemma cell_put:
  assumes "wf_board state" "r \<in> {0..4}" "c \<in> {0..4}" "r' \<in> {0..4}" "c' \<in> {0..4}"
  shows "cell (put state r c v) r' c' =
    (if r' = r \<and> c' = c then Some v else cell state r' c')"
proof -
  have "cell (put state r c v) r' c' = Some (put state r c v ! nat r' ! nat c')"
    using assms by (intro cell_wf wf_board_put) simp_all
  also have "put state r c v ! nat r' ! nat c' =
      (if nat r' = nat r \<and> nat c' = nat c then v else state ! nat r' ! nat c')"
    unfolding put_def using assms by (intro nth_board_update) (simp_all add: nat_less_iff)
  finally show ?thesis
    using assms by (simp add: cell_wf nat_eq_iff)
qed

lemma succ_drop_entries:
  assumes "wf_board state" and "drop_phase_check pl < 9"
  shows "\<exists>ys. succ pl state turn_piece = Some ys
    \<and> length ys = count_list (concat state) (CHR '' '')
    \<and> distinct (map fst ys)
    \<and> (\<forall>(m, s') \<in> set ys. \<exists>r \<in> {0..4}. \<exists>c \<in> {0..4}.
          m = [(r, c)] \<and> cell state r c = Some (CHR '' '') \<and> wf_board s'
          \<and> (\<forall>r' \<in> {0..4}. \<forall>c' \<in> {0..4}.
                cell s' r' c' = (if r' = r \<and> c' = c then Some turn_piece else cell state r' c')))"
proof -
  let ?cells = "filter (\<lambda>(r, c). state ! nat r ! nat c = CHR '' '')
                  (List.product (range1 5) (range1 5))"
  let ?ys = "map (\<lambda>(r, c). ([(r, c)], put state r c turn_piece)) ?cells"
  have eq: "succ pl state turn_piece = Some ?ys"
    using assms by (rule succ_drop)
  have len: "length ?ys = count_list (concat state) (CHR '' '')"
    using count_board [OF assms(1)] by simp
  have "distinct ?cells"
    by (intro distinct_filter distinct_product) (simp_all add: range1_def)
  moreover have "map fst ?ys = map (\<lambda>(r, c). [(r, c)]) ?cells"
    by (simp add: case_prod_unfold comp_def)
  ultimately have dist: "distinct (map fst ?ys)"
    by (simp add: distinct_map inj_on_def case_prod_unfold prod_eq_iff)
  have entries: "\<exists>r \<in> {0..4}. \<exists>c \<in> {0..4}.
          m = [(r, c)] \<and> cell state r c = Some (CHR '' '') \<and> wf_board s'
          \<and> (\<forall>r' \<in> {0..4}. \<forall>c' \<in> {0..4}.
                cell s' r' c' = (if r' = r \<and> c' = c then Some turn_piece else cell state r' c'))"
    if "(m, s') \<in> set ?ys" for m s'
  proof -
    from that obtain r c where rc: "r \<in> {0..4}" "c \<in> {0..4}"
      "state ! nat r ! nat c = CHR '' ''" "m = [(r, c)]" "s' = put state r c turn_piece"
      by (auto simp: set_range1)
    from rc assms(1) have "cell state r c = Some (CHR '' '')"
      by (simp add: cell_wf)
    moreover have "wf_board s'"
      using assms(1) rc(5) by (simp add: wf_board_put)
    moreover have "\<forall>r' \<in> {0..4}. \<forall>c' \<in> {0..4}.
          cell s' r' c' = (if r' = r \<and> c' = c then Some turn_piece else cell state r' c')"
      using assms(1) rc(1,2) unfolding rc(5) by (intro ballI cell_put)
    ultimately show ?thesis
      using rc by blast
  qed
  show ?thesis
    using eq len dist entries by blast
qed

lemma slide_to_wf:
  assumes "wf_board state" "r \<in> {0..4}" "c \<in> {0..4}"
  shows "slide_to state p r c i j =
    Some (if (i \<noteq> 0 \<or> j \<noteq> 0) \<and> r + i \<in> {0..4} \<and> c + j \<in> {0..4}
             \<and> state ! nat (r + i) ! nat (c + j) = CHR '' ''
          then [([(r + i, c + j), (r, c)], put (put state (r + i) (c + j) p) r c (CHR '' ''))]
          else [])"
  using assms
  by (simp add: slide_to_def cell_wf set_cell_wf set_range1 put_def wf_board_update)

lemma slide_from_wf:
  assumes "wf_board state" "r \<in> {0..4}" "c \<in> {0..4}"
  shows "slide_from state p r c =
    Some (if state ! nat r ! nat c = p then slides state p r c else [])"
proof -
  have "collect (\<lambda>j. slide_to state p r c i j) (range2 (- 1) 2) =
      Some (map (\<lambda>j. ([(r + i, c + j), (r, c)],
                  put (put state (r + i) (c + j) p) r c (CHR '' '')))
        (filter (\<lambda>j. (i \<noteq> 0 \<or> j \<noteq> 0) \<and> r + i \<in> {0..4} \<and> c + j \<in> {0..4}
                  \<and> state ! nat (r + i) ! nat (c + j) = CHR '' '') (range2 (- 1) 2)))" for i
    unfolding concat_map_if [symmetric]
    by (rule collect_total) (simp add: slide_to_wf [OF assms])
  then have "collect (\<lambda>i. collect (\<lambda>j. slide_to state p r c i j) (range2 (- 1) 2))
        (range2 (- 1) 2) = Some (slides state p r c)"
    unfolding slides_def concat_map_product [symmetric]
    by (intro collect_total)
  then show ?thesis
    using assms by (simp add: slide_from_def cell_wf)
qed

lemma concat_map_if_list:
  "concat (map (\<lambda>x. if P x then g x else []) xs) = concat (map g (filter P xs))"
  by (induction xs) auto

lemma concat_concat_product:
  "concat (map (\<lambda>r. concat (map (\<lambda>c. if P r c then g r c else []) cols)) rows) =
   concat (map (\<lambda>(r, c). g r c) (filter (\<lambda>(r, c). P r c) (List.product rows cols)))"
  by (induction rows) (auto simp: filter_map comp_def concat_map_if_list)

lemma succ_slide:
  assumes "wf_board state" "9 \<le> drop_phase_check pl"
  shows "succ pl state p =
    Some (concat (map (\<lambda>(r, c). slides state p r c)
      (filter (\<lambda>(r, c). state ! nat r ! nat c = p) (List.product (range1 5) (range1 5)))))"
proof -
  have "collect (\<lambda>col. slide_from state p row col) (range1 5) =
      Some (concat (map (\<lambda>c. if state ! nat row ! nat c = p then slides state p row c else [])
         (range1 5)))"
    if "row \<in> set (range1 5)" for row
    using assms(1) that
    by (intro collect_total) (simp add: slide_from_wf set_range1)
  then have "collect (\<lambda>row. collect (\<lambda>col. slide_from state p row col) (range1 5)) (range1 5) =
      Some (concat (map (\<lambda>r. concat (map (\<lambda>c. if state ! nat r ! nat c = p
         then slides state p r c else []) (range1 5))) (range1 5)))"
    by (rule collect_total)
  then show ?thesis
    using assms(2) by (simp add: succ_def concat_concat_product)
qed


lemma count_list_update:
  "i < length xs \<Longrightarrow>
   count_list (xs[i := v]) x + (if xs ! i = x then 1 else 0) =
   count_list xs x + (if v = x then 1 else 0)"
proof (induction xs arbitrary: i)
  case Nil
  then show ?case by simp
next
  case (Cons y ys)
  show ?case
  proof (cases i)
    case 0
    then show ?thesis by simp
  next
    case (Suc k)
    with Cons.prems have "k < length ys" by simp
    from Cons.IH [OF this] Suc show ?thesis by (auto split: if_splits)
  qed
qed

lemma count_concat_update:
  "i < length xss \<Longrightarrow>
   count_list (concat (xss[i := row])) x + count_list (xss ! i) x =
   count_list (concat xss) x + count_list row x"
proof (induction xss arbitrary: i)
  case Nil
  then show ?case by simp
next
  case (Cons ys yss)
  show ?case
  proof (cases i)
    case 0
    then show ?thesis by simp
  next
    case (Suc k)
    with Cons.prems have "k < length yss" by simp
    from Cons.IH [OF this] Suc show ?thesis by (auto split: if_splits)
  qed
qed

lemma count_put:
  assumes "wf_board state" "r \<in> {0..4}" "c \<in> {0..4}"
  shows "count_list (concat (put state r c v)) x
         + (if state ! nat r ! nat c = x then 1 else 0) =
         count_list (concat state) x + (if v = x then 1 else 0)"
proof -
  from assms have r: "nat r < length state" and c: "nat c < length (state ! nat r)"
    by (simp_all add: wf_board_def nat_less_iff)
  from count_concat_update [OF r, of "(state ! nat r)[nat c := v]" x]
    count_list_update [OF c, of v x]
  show ?thesis
    by (simp add: put_def split: if_splits)
qed

lemma slide_entry:
  assumes "wf_board state" "9 \<le> drop_phase_check pl"
    and "succ pl state p = Some ys" "(m, s') \<in> set ys"
  shows "\<exists>r \<in> {0..4}. \<exists>c \<in> {0..4}. \<exists>i \<in> {- 1..1}. \<exists>j \<in> {- 1..1}.
    (i \<noteq> 0 \<or> j \<noteq> 0) \<and> r + i \<in> {0..4} \<and> c + j \<in> {0..4}
    \<and> cell state r c = Some p \<and> cell state (r + i) (c + j) = Some (CHR '' '')
    \<and> m = [(r + i, c + j), (r, c)]
    \<and> s' = put (put state (r + i) (c + j) p) r c (CHR '' '')"
proof -
  from assms(3,4) succ_slide [OF assms(1,2), of p]
  obtain r c where rc: "r \<in> {0..4}" "c \<in> {0..4}" "state ! nat r ! nat c = p"
    "(m, s') \<in> set (slides state p r c)"
    by (auto simp: set_range1)
  from rc(4) obtain i j where ij: "i \<in> {- 1..1}" "j \<in> {- 1..1}" "i \<noteq> 0 \<or> j \<noteq> 0"
    "r + i \<in> {0..4}" "c + j \<in> {0..4}" "state ! nat (r + i) ! nat (c + j) = CHR '' ''"
    "m = [(r + i, c + j), (r, c)]" "s' = put (put state (r + i) (c + j) p) r c (CHR '' '')"
    unfolding slides_def by (auto simp: range2_def)
  from assms(1) rc have "cell state r c = Some p"
    by (simp add: cell_wf)
  moreover from assms(1) ij have "cell state (r + i) (c + j) = Some (CHR '' '')"
    by (simp add: cell_wf)
  ultimately show ?thesis
    using rc(1,2) ij by blast
qed

lemma cell_slide:
  assumes "wf_board state" "r \<in> {0..4}" "c \<in> {0..4}" "r + i \<in> {0..4}" "c + j \<in> {0..4}"
    "r' \<in> {0..4}" "c' \<in> {0..4}"
  shows "cell (put (put state (r + i) (c + j) p) r c (CHR '' '')) r' c' =
    (if r' = r \<and> c' = c then Some (CHR '' '')
     else if r' = r + i \<and> c' = c + j then Some p else cell state r' c')"
  using assms by (simp add: cell_put wf_board_put)

text \<open>
  Claim C7. On a 5x5 board, with the phase counter at 9 or more, \<^verbatim>\<open>succ\<close> returns
  without an exception, and every entry is a move \<open>[destination, source]\<close> where the
  source holds the piece in the input, the destination is empty in the input and differs
  from the source, all four coordinates lie in 0..4, and the destination is at most one
  row and one column away from the source; in the paired board the source is empty and
  the destination holds the piece.
\<close>

theorem succ_relocation_moves:
  assumes "wf_board state" and "9 \<le> drop_phase_check pl"
  shows "\<exists>ys. succ pl state piece = Some ys
    \<and> (\<forall>(m, s') \<in> set ys. \<exists>dr dc sr sc.
          m = [(dr, dc), (sr, sc)]
          \<and> cell state sr sc = Some piece \<and> cell state dr dc = Some (CHR '' '')
          \<and> (dr, dc) \<noteq> (sr, sc)
          \<and> dr \<in> {0..4} \<and> dc \<in> {0..4} \<and> sr \<in> {0..4} \<and> sc \<in> {0..4}
          \<and> \<bar>dr - sr\<bar> \<le> 1 \<and> \<bar>dc - sc\<bar> \<le> 1
          \<and> cell s' sr sc = Some (CHR '' '') \<and> cell s' dr dc = Some piece)"
proof -
  from succ_slide [OF assms] obtain ys where ys: "succ pl state piece = Some ys"
    by blast
  have "\<exists>dr dc sr sc.
          m = [(dr, dc), (sr, sc)]
          \<and> cell state sr sc = Some piece \<and> cell state dr dc = Some (CHR '' '')
          \<and> (dr, dc) \<noteq> (sr, sc)
          \<and> dr \<in> {0..4} \<and> dc \<in> {0..4} \<and> sr \<in> {0..4} \<and> sc \<in> {0..4}
          \<and> \<bar>dr - sr\<bar> \<le> 1 \<and> \<bar>dc - sc\<bar> \<le> 1
          \<and> cell s' sr sc = Some (CHR '' '') \<and> cell s' dr dc = Some piece"
    if "(m, s') \<in> set ys" for m s'
  proof -
    from slide_entry [OF assms ys that]
    obtain r c i j where e: "r \<in> {0..4}" "c \<in> {0..4}" "i \<in> {- 1..1}" "j \<in> {- 1..1}"
      "i \<noteq> 0 \<or> j \<noteq> 0" "r + i \<in> {0..4}" "c + j \<in> {0..4}"
      "cell state r c = Some piece" "cell state (r + i) (c + j) = Some (CHR '' '')"
      "m = [(r + i, c + j), (r, c)]"
      "s' = put (put state (r + i) (c + j) piece) r c (CHR '' '')"
      by blast
    have src: "cell s' r c = Some (CHR '' '')"
      unfolding e(11) using assms(1) e(1,2,6,7) by (simp add: cell_slide)
    have dst: "cell s' (r + i) (c + j) = Some piece"
      unfolding e(11) using assms(1) e(1,2,5,6,7) by (auto simp: cell_slide)
    have "(r + i, c + j) \<noteq> (r, c)" "\<bar>r + i - r\<bar> \<le> 1" "\<bar>c + j - c\<bar> \<le> 1"
      using e(3,4,5) by auto
    with e src dst show ?thesis
      by blast
  qed
  with ys show ?thesis
    by blast
qed

theorem succ_relocation_moves_witness:
  "wf_board late_position \<and> 9 \<le> drop_phase_check (black 9) \<and>
   (\<exists>ys. succ (black 9) late_position (CHR ''b'') = Some ys
    \<and> (\<forall>(m, s') \<in> set ys. \<exists>dr dc sr sc.
          m = [(dr, dc), (sr, sc)]
          \<and> cell late_position sr sc = Some (CHR ''b'')
          \<and> cell late_position dr dc = Some (CHR '' '')
          \<and> (dr, dc) \<noteq> (sr, sc)
          \<and> dr \<in> {0..4} \<and> dc \<in> {0..4} \<and> sr \<in> {0..4} \<and> sc \<in> {0..4}
          \<and> \<bar>dr - sr\<bar> \<le> 1 \<and> \<bar>dc - sc\<bar> \<le> 1
          \<and> cell s' sr sc = Some (CHR '' '') \<and> cell s' dr dc = Some (CHR ''b'')))"
proof -
  have wf: "wf_board late_position"
    by (simp add: wf_board_def late_position_def)
  have ph: "9 \<le> drop_phase_check (black 9)"
    by (simp add: black_def)
  from succ_relocation_moves [OF wf ph, of "CHR ''b''"] wf ph show ?thesis
    by blast
qed

text \<open>
  Claim C10. On a 5x5 board, with the phase counter at 9 or more, every board returned by
  \<^verbatim>\<open>succ\<close> is a 5x5 board that is empty at the source of its move, holds the piece
  at the destination, and agrees with the input at every other cell; so every cell that
  holds another piece keeps it, and the number of cells holding the piece is the same as
  in the input.
\<close>

theorem succ_relocation_frame:
  assumes "wf_board state" and "9 \<le> drop_phase_check pl"
  shows "\<exists>ys. succ pl state piece = Some ys
    \<and> (\<forall>(m, s') \<in> set ys. \<exists>dest src.
          m = [dest, src] \<and> wf_board s'
          \<and> (\<forall>r \<in> {0..4}. \<forall>c \<in> {0..4}.
                cell s' r c =
                  (if (r, c) = src then Some (CHR '' '')
                   else if (r, c) = dest then Some piece else cell state r c))
          \<and> (\<forall>r \<in> {0..4}. \<forall>c \<in> {0..4}. \<forall>q.
                q \<noteq> piece \<and> q \<noteq> CHR '' '' \<and> cell state r c = Some q
                \<longrightarrow> cell s' r c = Some q)
          \<and> count_list (concat s') piece = count_list (concat state) piece)"
proof -
  from succ_slide [OF assms] obtain ys where ys: "succ pl state piece = Some ys"
    by blast
  have "\<exists>dest src.
          m = [dest, src] \<and> wf_board s'
          \<and> (\<forall>r \<in> {0..4}. \<forall>c \<in> {0..4}.
                cell s' r c =
                  (if (r, c) = src then Some (CHR '' '')
                   else if (r, c) = dest then Some piece else cell state r c))
          \<and> (\<forall>r \<in> {0..4}. \<forall>c \<in> {0..4}. \<forall>q.
                q \<noteq> piece \<and> q \<noteq> CHR '' '' \<and> cell state r c = Some q
                \<longrightarrow> cell s' r c = Some q)
          \<and> count_list (concat s') piece = count_list (concat state) piece"
    if "(m, s') \<in> set ys" for m s'
  proof -
    from slide_entry [OF assms ys that]
    obtain r c i j where e: "r \<in> {0..4}" "c \<in> {0..4}" "i \<in> {- 1..1}" "j \<in> {- 1..1}"
      "i \<noteq> 0 \<or> j \<noteq> 0" "r + i \<in> {0..4}" "c + j \<in> {0..4}"
      "cell state r c = Some piece" "cell state (r + i) (c + j) = Some (CHR '' '')"
      "m = [(r + i, c + j), (r, c)]"
      "s' = put (put state (r + i) (c + j) piece) r c (CHR '' '')"
      by blast
    let ?mid = "put state (r + i) (c + j) piece"
    have wf: "wf_board s'"
      unfolding e(11) using assms(1) by (simp add: wf_board_put)
    have cells: "\<forall>r' \<in> {0..4}. \<forall>c' \<in> {0..4}.
        cell s' r' c' =
          (if (r', c') = (r, c) then Some (CHR '' '')
           else if (r', c') = (r + i, c + j) then Some piece else cell state r' c')"
      unfolding e(11) using assms(1) e(1,2,6,7) by (simp add: cell_slide)
    from cells e(8,9) have others: "\<forall>r' \<in> {0..4}. \<forall>c' \<in> {0..4}. \<forall>q.
        q \<noteq> piece \<and> q \<noteq> CHR '' '' \<and> cell state r' c' = Some q \<longrightarrow> cell s' r' c' = Some q"
      by auto
    have src: "state ! nat r ! nat c = piece"
      and dst: "state ! nat (r + i) ! nat (c + j) = CHR '' ''"
      using assms(1) e(1,2,6,7,8,9) by (simp_all add: cell_wf)
    have "cell ?mid r c = Some piece"
      using assms(1) e(1,2,5,6,7,8) by (auto simp: cell_put)
    then have mid: "?mid ! nat r ! nat c = piece"
      using assms(1) e(1,2) by (simp add: cell_wf wf_board_put)
    from count_put [OF assms(1) e(6,7), of piece piece]
      count_put [OF wf_board_put [OF assms(1)] e(1,2), of "r + i" "c + j" piece "CHR '' ''" piece]
    have "count_list (concat s') piece = count_list (concat state) piece"
      unfolding e(11) by (simp add: mid dst split: if_splits)
    with wf cells others e(10) show ?thesis
      by blast
  qed
  with ys show ?thesis
    by blast
qed

theorem succ_relocation_frame_witness:
  "wf_board late_position \<and> 9 \<le> drop_phase_check (black 9) \<and>
   (\<exists>ys. succ (black 9) late_position (CHR ''b'') = Some ys
    \<and> (\<forall>(m, s') \<in> set ys. \<exists>dest src.
          m = [dest, src] \<and> wf_board s'
          \<and> (\<forall>r \<in> {0..4}. \<forall>c \<in> {0..4}.
                cell s' r c =
                  (if (r, c) = src then Some (CHR '' '')
                   else if (r, c) = dest then Some (CHR ''b'') else cell late_position r c))
          \<and> (\<forall>r \<in> {0..4}. \<forall>c \<in> {0..4}. \<forall>q.
                q \<noteq> CHR ''b'' \<and> q \<noteq> CHR '' '' \<and> cell late_position r c = Some q
                \<longrightarrow> cell s' r c = Some q)
          \<and> count_list (concat s') (CHR ''b'') = count_list (concat late_position) (CHR ''b'')))"
proof -
  have wf: "wf_board late_position"
    by (simp add: wf_board_def late_position_def)
  have ph: "9 \<le> drop_phase_check (black 9)"
    by (simp add: black_def)
  from succ_relocation_frame [OF wf ph, of "CHR ''b''"] wf ph show ?thesis
    by blast
qed

section \<open>Successor generation over a store\<close>

lemma rows_at_iff:
  "rows_at h rs = Some b \<longleftrightarrow> list_all2 (\<lambda>a xs. objects h a = Some (Row xs)) rs b"
proof (induction rs arbitrary: b)
  case Nil
  then show ?case by auto
next
  case (Cons a rs)
  show ?case
  proof
    assume "rows_at h (a # rs) = Some b"
    then obtain xs b' where "row_at h a = Some xs" "rows_at h rs = Some b'" "b = xs # b'"
      by (auto split: option.splits)
    moreover from this have "objects h a = Some (Row xs)"
      by (auto simp: row_at_def split: option.splits pyobj.splits)
    ultimately show "list_all2 (\<lambda>a xs. objects h a = Some (Row xs)) (a # rs) b"
      using Cons.IH [of b'] by simp
  next
    assume "list_all2 (\<lambda>a xs. objects h a = Some (Row xs)) (a # rs) b"
    then obtain xs b' where "b = xs # b'" "objects h a = Some (Row xs)"
      "list_all2 (\<lambda>a xs. objects h a = Some (Row xs)) rs b'"
      by (auto simp: list_all2_Cons1)
    with Cons.IH [of b'] show "rows_at h (a # rs) = Some b"
      by (simp add: row_at_def)
  qed
qed

lemma extends_refl: "extends h h"
  by (simp add: extends_def)

lemma extends_trans: "extends h h' \<Longrightarrow> extends h' h'' \<Longrightarrow> extends h h''"
  by (auto simp: extends_def)

lemma allocated: "store_ok h \<Longrightarrow> objects h x = Some ob \<Longrightarrow> x < fresh h"
  unfolding store_ok_def by (metis not_le option.distinct(1))

lemma rows_at_extends:
  assumes "store_ok h" "extends h h'" "rows_at h rs = Some b"
  shows "rows_at h' rs = Some b"
proof -
  from assms(3) have "list_all2 (\<lambda>a xs. objects h a = Some (Row xs)) rs b"
    by (simp add: rows_at_iff)
  then have "list_all2 (\<lambda>a xs. objects h' a = Some (Row xs)) rs b"
  proof (rule list_all2_mono)
    fix a xs
    assume "objects h a = Some (Row xs)"
    with allocated [OF assms(1) this] assms(2) show "objects h' a = Some (Row xs)"
      by (simp add: extends_def)
  qed
  then show ?thesis by (simp add: rows_at_iff)
qed

lemma board_at_extends:
  assumes "store_ok h" "extends h h'" "board_at h a = Some b"
  shows "board_at h' a = Some b"
proof -
  from assms(3) obtain rs where rs: "objects h a = Some (Grid rs)" "rows_at h rs = Some b"
    by (auto simp: board_at_def split: option.splits pyobj.splits)
  from allocated [OF assms(1) rs(1)] assms(2) rs(1) have "objects h' a = Some (Grid rs)"
    by (simp add: extends_def)
  with rows_at_extends [OF assms(1,2) rs(2)] show ?thesis
    by (simp add: board_at_def)
qed

lemma holds_board_extends:
  assumes "holds_board h a rs b" "extends h h'" "store_ok h'"
  shows "holds_board h' a rs b"
proof -
  from assms(1) have ok: "store_ok h" and a: "objects h a = Some (Grid rs)"
    and rows: "rows_at h rs = Some b"
    by (simp_all add: holds_board_def)
  from allocated [OF ok a] assms(2) a have "objects h' a = Some (Grid rs)"
    by (simp add: extends_def)
  with rows_at_extends [OF ok assms(2) rows] assms(3) show ?thesis
    by (simp add: holds_board_def)
qed

lemma represents_extends:
  assumes "store_ok h" "extends h h'" "represents h es ys"
  shows "represents h' es ys"
  using assms(3) unfolding represents_def
  by (rule list_all2_mono) (auto intro: board_at_extends [OF assms(1,2)])

lemma allocate_extends:
  assumes "store_ok h"
  shows "store_ok (snd (allocate h ob))" and "extends h (snd (allocate h ob))"
    and "objects (snd (allocate h ob)) (fresh h) = Some ob"
    and "fresh (snd (allocate h ob)) = Suc (fresh h)" and "fst (allocate h ob) = fresh h"
  using assms by (auto simp: allocate_def store_ok_def extends_def)

lemma copy_rows_spec:
  assumes "store_ok h" "rows_at h rs = Some b" "distinct rs" "dom memo \<inter> set rs = {}"
  shows "\<exists>rs' h'. copy_rows h memo rs = Some (rs', h') \<and> store_ok h' \<and> extends h h'
    \<and> rows_at h' rs' = Some b \<and> distinct rs' \<and> (\<forall>x \<in> set rs'. fresh h \<le> x \<and> x < fresh h')"
  using assms
proof (induction rs arbitrary: h memo b)
  case Nil
  then show ?case by (auto simp: extends_refl)
next
  case (Cons a rs)
  from Cons.prems(2) obtain xs b' where b: "b = xs # b'" "objects h a = Some (Row xs)"
    "rows_at h rs = Some b'"
    unfolding rows_at_iff by (auto simp: list_all2_Cons1)
  from Cons.prems(4) have memo: "memo a = None" by auto
  let ?h1 = "snd (allocate h (Row xs))"
  note al = allocate_extends [OF Cons.prems(1), of "Row xs"]
  have rows1: "rows_at ?h1 rs = Some b'"
    using Cons.prems(1) al(2) b(3) by (rule rows_at_extends)
  from Cons.prems(3,4) have "distinct rs" "dom (memo(a \<mapsto> fresh h)) \<inter> set rs = {}"
    by auto
  from Cons.IH [OF al(1) rows1 this]
  obtain rs' h' where step: "copy_rows ?h1 (memo(a \<mapsto> fresh h)) rs = Some (rs', h')"
    "store_ok h'" "extends ?h1 h'" "rows_at h' rs' = Some b'" "distinct rs'"
    "\<forall>x \<in> set rs'. fresh ?h1 \<le> x \<and> x < fresh h'"
    by blast
  from step(3) al(3,4) have new: "objects h' (fresh h) = Some (Row xs)"
    by (simp add: extends_def)
  from step(3) al(4) have less: "fresh h < fresh h'"
    by (simp add: extends_def)
  have "copy_rows h memo (a # rs) = Some (fresh h # rs', h')"
    using memo b(2) step(1) al(5) by simp
  moreover have "rows_at h' (fresh h # rs') = Some b"
    using new step(4) b(1) by (simp add: row_at_def)
  moreover have "distinct (fresh h # rs')"
    using step(5,6) al(4) by auto
  moreover have "\<forall>x \<in> set (fresh h # rs'). fresh h \<le> x \<and> x < fresh h'"
    using step(6) al(4) less by auto
  moreover have "extends h h'"
    using al(2) step(3) by (rule extends_trans)
  ultimately show ?case
    using step(2) by blast
qed

lemma deepcopy_spec:
  assumes "holds_board h a rs b" "distinct rs"
  shows "\<exists>n h' rs'. deepcopy h a = Some (n, h') \<and> store_ok h' \<and> extends h h'
    \<and> holds_board h' n rs' b \<and> distinct rs' \<and> (\<forall>x \<in> set rs'. fresh h \<le> x)"
proof -
  from assms(1) have ok: "store_ok h" and a: "objects h a = Some (Grid rs)"
    and rows: "rows_at h rs = Some b"
    by (simp_all add: holds_board_def)
  let ?h0 = "snd (allocate h (Grid []))"
  note al = allocate_extends [OF ok, of "Grid []"]
  have "rows_at ?h0 rs = Some b"
    using ok al(2) rows by (rule rows_at_extends)
  from copy_rows_spec [OF al(1) this assms(2), of Map.empty]
  obtain rs' h1 where step: "copy_rows ?h0 Map.empty rs = Some (rs', h1)"
    "store_ok h1" "extends ?h0 h1" "rows_at h1 rs' = Some b" "distinct rs'"
    "\<forall>x \<in> set rs'. fresh ?h0 \<le> x \<and> x < fresh h1"
    by auto
  let ?h' = "h1\<lparr>objects := (objects h1)(fresh h \<mapsto> Grid rs')\<rparr>"
  from step(3) al(4) have less: "fresh h < fresh h1"
    by (simp add: extends_def)
  have "deepcopy h a = Some (fresh h, ?h')"
    using a step(1) by (simp add: deepcopy_def)
  moreover have ok': "store_ok ?h'"
    using step(2) less by (auto simp: store_ok_def)
  moreover have "extends h ?h'"
    using al(2) step(3) by (auto simp: extends_def)
  moreover have "rows_at ?h' rs' = Some b"
  proof -
    from step(4) have "list_all2 (\<lambda>a xs. objects h1 a = Some (Row xs)) rs' b"
      by (simp add: rows_at_iff)
    moreover from step(3) al(3,4) have "objects h1 (fresh h) = Some (Grid [])"
      by (simp add: extends_def)
    ultimately have "list_all2 (\<lambda>a xs. objects ?h' a = Some (Row xs)) rs' b"
      by (elim list_all2_mono) auto
    then show ?thesis by (simp add: rows_at_iff)
  qed
  moreover have "\<forall>x \<in> set rs'. fresh h \<le> x"
    using step(6) al(4) by auto
  ultimately show ?thesis
    using step(5) by (auto simp: holds_board_def)
qed

lemma getitem_index:
  assumes "getitem xs r = Some x"
  obtains i where "i < length xs" "x = xs ! i"
    "\<And>ys. length ys = length xs \<Longrightarrow> getitem ys r = Some (ys ! i)"
proof (cases "0 \<le> r")
  case True
  with assms have "nat r < length xs" "x = xs ! nat r"
    "\<And>ys. length ys = length xs \<Longrightarrow> getitem ys r = Some (ys ! nat r)"
    by (auto simp: getitem_def split: if_splits)
  then show thesis by (rule that)
next
  case False
  with assms have "nat (int (length xs) + r) < length xs"
    "x = xs ! nat (int (length xs) + r)"
    "\<And>ys. length ys = length xs \<Longrightarrow> getitem ys r = Some (ys ! nat (int (length xs) + r))"
    by (auto simp: getitem_def split: if_splits)
  then show thesis by (rule that)
qed

lemma load_cell_board:
  assumes "holds_board h a rs b"
  shows "load_cell h a r c = cell b r c"
proof -
  from assms have a: "objects h a = Some (Grid rs)"
    and all: "list_all2 (\<lambda>a xs. objects h a = Some (Row xs)) rs b"
    by (simp_all add: holds_board_def rows_at_iff)
  from all have len: "length rs = length b"
    by (rule list_all2_lengthD)
  have nth: "objects h (rs ! i) = Some (Row (b ! i))" if "i < length b" for i
    using all that by (simp add: list_all2_conv_all_nth)
  show ?thesis
  proof (cases "getitem rs r")
    case None
    then have "getitem b r = None"
      by (auto simp: getitem_def len split: if_splits)
    with None a show ?thesis
      by (simp add: load_cell_def cell_def)
  next
    case (Some ra)
    then obtain i where gi: "i < length rs" "ra = rs ! i"
      "\<And>ys :: board. length ys = length rs \<Longrightarrow> getitem ys r = Some (ys ! i)"
      by (rule getitem_index) blast
    from gi(3) [of b] gi(1,2) have i: "i < length b" "ra = rs ! i" "getitem b r = Some (b ! i)"
      by (simp_all add: len)
    with nth [of i] a Some show ?thesis
      by (simp add: load_cell_def cell_def)
  qed
qed

lemma store_cell_spec:
  assumes "holds_board h n rs b" "distinct rs" "wf_board b" "r \<in> {0..4}" "c \<in> {0..4}"
  shows "\<exists>h'. store_cell h n r c v = Some h' \<and> fresh h' = fresh h
    \<and> holds_board h' n rs (put b r c v)
    \<and> (\<forall>x. x \<notin> set rs \<longrightarrow> objects h' x = objects h x)"
proof -
  from assms(1) have ok: "store_ok h" and n: "objects h n = Some (Grid rs)"
    and all: "list_all2 (\<lambda>a xs. objects h a = Some (Row xs)) rs b"
    by (simp_all add: holds_board_def rows_at_iff)
  from all have len: "length rs = length b"
    by (rule list_all2_lengthD)
  have nth: "objects h (rs ! i) = Some (Row (b ! i))" if "i < length b" for i
    using all that by (simp add: list_all2_conv_all_nth)
  from assms(3,4,5) have r: "nat r < length b" and c: "nat c < length (b ! nat r)"
    by (simp_all add: wf_board_def nat_less_iff)
  let ?ra = "rs ! nat r"
  let ?h' = "h\<lparr>objects := (objects h)(?ra \<mapsto> Row ((b ! nat r)[nat c := v]))\<rparr>"
  from nth [OF r] n have "?ra \<noteq> n" by auto
  have "getitem rs r = Some ?ra"
    using assms(4) r len by (simp add: getitem_in_range)
  moreover have "setitem (b ! nat r) c v = Some ((b ! nat r)[nat c := v])"
    using assms(5) c by (simp add: setitem_in_range)
  ultimately have "store_cell h n r c v = Some ?h'"
    using n nth [OF r] by (simp add: store_cell_def)
  moreover have "store_ok ?h'"
    using ok allocated [OF ok nth [OF r]] by (auto simp: store_ok_def)
  moreover have "objects ?h' n = Some (Grid rs)"
    using n \<open>?ra \<noteq> n\<close> by simp
  moreover have "rows_at ?h' rs = Some (put b r c v)"
    unfolding rows_at_iff put_def list_all2_conv_all_nth
  proof (intro conjI allI impI)
    show "length rs = length (b[nat r := (b ! nat r)[nat c := v]])"
      by (simp add: len)
    fix i
    assume "i < length rs"
    with nth [of i] r show "objects ?h' (rs ! i) =
        Some (Row (b[nat r := (b ! nat r)[nat c := v]] ! i))"
      using assms(2) by (auto simp: len nth_list_update nth_eq_iff_index_eq)
  qed
  moreover have "\<forall>x. x \<notin> set rs \<longrightarrow> objects ?h' x = objects h x"
    using r len by auto
  ultimately show ?thesis
    by (auto simp: holds_board_def)
qed

lemma refinesI:
  assumes "\<And>h. holds_board h a rs b \<Longrightarrow>
    \<exists>es h'. f h = Some (es, h') \<and> store_ok h' \<and> extends h h' \<and> represents h' es ys"
  shows "refines a rs b f ys"
  using assms by (simp add: refines_def)

lemma refinesD:
  assumes "refines a rs b f ys" "holds_board h a rs b"
  obtains es h' where "f h = Some (es, h')" "store_ok h'" "extends h h'" "represents h' es ys"
  using assms unfolding refines_def by blast

lemma refines_collect:
  assumes "\<And>x. x \<in> set xs \<Longrightarrow> refines a rs b (f x) (g x)"
  shows "refines a rs b (collect_store f xs) (concat (map g xs))"
  using assms
proof (induction xs)
  case Nil
  show ?case
    by (rule refinesI) (simp add: holds_board_def extends_refl represents_def)
next
  case (Cons x xs)
  show ?case
  proof (rule refinesI)
    fix h
    assume h: "holds_board h a rs b"
    from Cons.prems [of x] have "refines a rs b (f x) (g x)" by simp
    from this h obtain es1 h1 where 1: "f x h = Some (es1, h1)" "store_ok h1" "extends h h1"
      "represents h1 es1 (g x)"
      by (rule refinesD)
    have h1: "holds_board h1 a rs b"
      using h 1(3,2) by (rule holds_board_extends)
    from Cons.IH Cons.prems have "refines a rs b (collect_store f xs) (concat (map g xs))"
      by simp
    from this h1 obtain es2 h2 where 2: "collect_store f xs h1 = Some (es2, h2)" "store_ok h2"
      "extends h1 h2" "represents h2 es2 (concat (map g xs))"
      by (rule refinesD)
    have "represents h2 es1 (g x)"
      using 1(2) 2(3) 1(4) by (rule represents_extends)
    with 2(4) have "represents h2 (es1 @ es2) (concat (map g (x # xs)))"
      by (simp add: represents_def list_all2_appendI)
    moreover have "extends h h2"
      using 1(3) 2(3) by (rule extends_trans)
    ultimately show "\<exists>es h'. collect_store f (x # xs) h = Some (es, h') \<and> store_ok h'
        \<and> extends h h' \<and> represents h' es (concat (map g (x # xs)))"
      using 1(1) 2(1,2) by simp
  qed
qed

lemma copy_then_put:
  assumes "holds_board h a rs b" "distinct rs" "wf_board b"
  shows "\<exists>n h1 rs'. deepcopy h a = Some (n, h1) \<and> holds_board h1 n rs' b \<and> distinct rs'
    \<and> fresh h \<le> fresh h1 \<and> (\<forall>x. x < fresh h \<longrightarrow> objects h1 x = objects h x \<and> x \<notin> set rs')"
proof -
  from deepcopy_spec [OF assms(1,2)]
  obtain n h1 rs' where "deepcopy h a = Some (n, h1)" "extends h h1" "holds_board h1 n rs' b"
    "distinct rs'" "\<forall>x \<in> set rs'. fresh h \<le> x"
    by blast
  then show ?thesis
    by (fastforce simp: extends_def)
qed

lemma put_in_copy:
  assumes "holds_board h1 n rs' b" "distinct rs'" "wf_board b" "r \<in> {0..4}" "c \<in> {0..4}"
    and "fresh h \<le> fresh h1" "\<forall>x. x < fresh h \<longrightarrow> objects h1 x = objects h x \<and> x \<notin> set rs'"
  shows "\<exists>h2. store_cell h1 n r c v = Some h2 \<and> holds_board h2 n rs' (put b r c v)
    \<and> fresh h \<le> fresh h2 \<and> (\<forall>x. x < fresh h \<longrightarrow> objects h2 x = objects h x \<and> x \<notin> set rs')"
proof -
  from store_cell_spec [OF assms(1-5), of v]
  obtain h2 where "store_cell h1 n r c v = Some h2" "fresh h2 = fresh h1"
    "holds_board h2 n rs' (put b r c v)" "\<forall>x. x \<notin> set rs' \<longrightarrow> objects h2 x = objects h1 x"
    by blast
  with assms(6,7) show ?thesis
    by auto
qed

lemma drop_at_store_refines:
  assumes "distinct rs" "wf_board b" "r \<in> {0..4}" "c \<in> {0..4}"
  shows "refines a rs b (drop_at_store a p r c)
    (if b ! nat r ! nat c = CHR '' '' then [([(r, c)], put b r c p)] else [])"
proof (rule refinesI)
  fix h
  assume h: "holds_board h a rs b"
  have cell: "load_cell h a r c = Some (b ! nat r ! nat c)"
    using load_cell_board [OF h] assms(2-4) by (simp add: cell_wf)
  show "\<exists>es h'. drop_at_store a p r c h = Some (es, h') \<and> store_ok h' \<and> extends h h'
      \<and> represents h' es
        (if b ! nat r ! nat c = CHR '' '' then [([(r, c)], put b r c p)] else [])"
  proof (cases "b ! nat r ! nat c = CHR '' ''")
    case False
    with cell h show ?thesis
      by (simp add: drop_at_store_def holds_board_def extends_refl represents_def)
  next
    case True
    from copy_then_put [OF h assms(1,2)]
    obtain n h1 rs' where 1: "deepcopy h a = Some (n, h1)" "holds_board h1 n rs' b"
      "distinct rs'" "fresh h \<le> fresh h1"
      "\<forall>x. x < fresh h \<longrightarrow> objects h1 x = objects h x \<and> x \<notin> set rs'"
      by blast
    from put_in_copy [OF 1(2,3) assms(2-4) 1(4,5), of p]
    obtain h2 where 2: "store_cell h1 n r c p = Some h2" "holds_board h2 n rs' (put b r c p)"
      "fresh h \<le> fresh h2" "\<forall>x. x < fresh h \<longrightarrow> objects h2 x = objects h x \<and> x \<notin> set rs'"
      by blast
    from 2(2) have "store_ok h2" "board_at h2 n = Some (put b r c p)"
      by (simp_all add: holds_board_def board_at_def)
    moreover from 2(3,4) have "extends h h2"
      by (simp add: extends_def)
    ultimately show ?thesis
      using cell True 1(1) 2(1) by (simp add: drop_at_store_def represents_def)
  qed
qed

lemma slide_to_store_refines:
  assumes "distinct rs" "wf_board b" "r \<in> {0..4}" "c \<in> {0..4}"
  shows "refines a rs b (slide_to_store a p r c i j)
    (if (i \<noteq> 0 \<or> j \<noteq> 0) \<and> r + i \<in> {0..4} \<and> c + j \<in> {0..4}
          \<and> b ! nat (r + i) ! nat (c + j) = CHR '' ''
     then [([(r + i, c + j), (r, c)], put (put b (r + i) (c + j) p) r c (CHR '' ''))]
     else [])"
proof (rule refinesI)
  fix h
  assume h: "holds_board h a rs b"
  let ?ys = "if (i \<noteq> 0 \<or> j \<noteq> 0) \<and> r + i \<in> {0..4} \<and> c + j \<in> {0..4}
          \<and> b ! nat (r + i) ! nat (c + j) = CHR '' ''
     then [([(r + i, c + j), (r, c)], put (put b (r + i) (c + j) p) r c (CHR '' ''))]
     else []"
  show "\<exists>es h'. slide_to_store a p r c i j h = Some (es, h') \<and> store_ok h' \<and> extends h h'
      \<and> represents h' es ?ys"
  proof (cases "(i \<noteq> 0 \<or> j \<noteq> 0) \<and> r + i \<in> {0..4} \<and> c + j \<in> {0..4}")
    case False
    with h show ?thesis
      by (auto simp: slide_to_store_def set_range1 holds_board_def extends_refl represents_def)
  next
    case inside: True
    then have cell: "load_cell h a (r + i) (c + j) = Some (b ! nat (r + i) ! nat (c + j))"
      using load_cell_board [OF h] assms(2) by (simp add: cell_wf)
    show ?thesis
    proof (cases "b ! nat (r + i) ! nat (c + j) = CHR '' ''")
      case False
      with cell h inside show ?thesis
        by (auto simp: slide_to_store_def set_range1 holds_board_def extends_refl
            represents_def)
    next
      case True
      from inside have d: "r + i \<in> {0..4}" "c + j \<in> {0..4}" by simp_all
      from copy_then_put [OF h assms(1,2)]
      obtain n h1 rs' where 1: "deepcopy h a = Some (n, h1)" "holds_board h1 n rs' b"
        "distinct rs'" "fresh h \<le> fresh h1"
        "\<forall>x. x < fresh h \<longrightarrow> objects h1 x = objects h x \<and> x \<notin> set rs'"
        by blast
      from put_in_copy [OF 1(2,3) assms(2) d 1(4,5), of p]
      obtain h2 where 2: "store_cell h1 n (r + i) (c + j) p = Some h2"
        "holds_board h2 n rs' (put b (r + i) (c + j) p)" "fresh h \<le> fresh h2"
        "\<forall>x. x < fresh h \<longrightarrow> objects h2 x = objects h x \<and> x \<notin> set rs'"
        by blast
      from put_in_copy [OF 2(2) 1(3) wf_board_put [OF assms(2)] assms(3,4) 2(3,4),
          of "CHR '' ''"]
      obtain h3 where 3: "store_cell h2 n r c (CHR '' '') = Some h3"
        "holds_board h3 n rs' (put (put b (r + i) (c + j) p) r c (CHR '' ''))"
        "fresh h \<le> fresh h3"
        "\<forall>x. x < fresh h \<longrightarrow> objects h3 x = objects h x \<and> x \<notin> set rs'"
        by blast
      from 3(2) have "store_ok h3"
        "board_at h3 n = Some (put (put b (r + i) (c + j) p) r c (CHR '' ''))"
        by (simp_all add: holds_board_def board_at_def)
      moreover from 3(3,4) have "extends h h3"
        by (simp add: extends_def)
      ultimately show ?thesis
        using cell True inside 1(1) 2(1) 3(1)
        by (simp add: slide_to_store_def set_range1 represents_def)
    qed
  qed
qed

lemma slide_from_store_refines:
  assumes "distinct rs" "wf_board b" "r \<in> {0..4}" "c \<in> {0..4}"
  shows "refines a rs b (slide_from_store a p r c)
    (if b ! nat r ! nat c = p then slides b p r c else [])"
proof (rule refinesI)
  fix h
  assume h: "holds_board h a rs b"
  have cell: "load_cell h a r c = Some (b ! nat r ! nat c)"
    using load_cell_board [OF h] assms(2-4) by (simp add: cell_wf)
  show "\<exists>es h'. slide_from_store a p r c h = Some (es, h') \<and> store_ok h' \<and> extends h h'
      \<and> represents h' es (if b ! nat r ! nat c = p then slides b p r c else [])"
  proof (cases "b ! nat r ! nat c = p")
    case False
    with cell h show ?thesis
      by (simp add: slide_from_store_def holds_board_def extends_refl represents_def)
  next
    case True
    have "refines a rs b
        (collect_store (\<lambda>i. collect_store (\<lambda>j. slide_to_store a p r c i j) (range2 (- 1) 2))
           (range2 (- 1) 2))
        (concat (map (\<lambda>i. concat (map (\<lambda>j.
           if (i \<noteq> 0 \<or> j \<noteq> 0) \<and> r + i \<in> {0..4} \<and> c + j \<in> {0..4}
                \<and> b ! nat (r + i) ! nat (c + j) = CHR '' ''
           then [([(r + i, c + j), (r, c)], put (put b (r + i) (c + j) p) r c (CHR '' ''))]
           else []) (range2 (- 1) 2))) (range2 (- 1) 2)))"
      by (intro refines_collect slide_to_store_refines assms)
    also have "concat (map (\<lambda>i. concat (map (\<lambda>j.
           if (i \<noteq> 0 \<or> j \<noteq> 0) \<and> r + i \<in> {0..4} \<and> c + j \<in> {0..4}
                \<and> b ! nat (r + i) ! nat (c + j) = CHR '' ''
           then [([(r + i, c + j), (r, c)], put (put b (r + i) (c + j) p) r c (CHR '' ''))]
           else []) (range2 (- 1) 2))) (range2 (- 1) 2)) = slides b p r c"
      unfolding slides_def concat_map_if concat_map_product ..
    finally obtain es h' where "collect_store
        (\<lambda>i. collect_store (\<lambda>j. slide_to_store a p r c i j) (range2 (- 1) 2))
        (range2 (- 1) 2) h = Some (es, h')" "store_ok h'" "extends h h'"
      "represents h' es (slides b p r c)"
      using h by (rule refinesD)
    with cell True show ?thesis
      by (simp add: slide_from_store_def)
  qed
qed

lemma succ_store_refines:
  assumes "distinct rs" "wf_board b" "succ pl b p = Some ys"
  shows "refines a rs b (succ_store pl a p) ys"
proof (cases "drop_phase_check pl < 9")
  case True
  have "refines a rs b
      (collect_store (\<lambda>row. collect_store (\<lambda>col. drop_at_store a p row col) (range1 5))
         (range1 5))
      (concat (map (\<lambda>r. concat (map (\<lambda>c.
         if b ! nat r ! nat c = CHR '' '' then [([(r, c)], put b r c p)] else [])
         (range1 5))) (range1 5)))"
    by (intro refines_collect drop_at_store_refines assms) (simp_all add: set_range1)
  also have "concat (map (\<lambda>r. concat (map (\<lambda>c.
         if b ! nat r ! nat c = CHR '' '' then [([(r, c)], put b r c p)] else [])
         (range1 5))) (range1 5)) = ys"
    using succ_drop [OF assms(2) True, of p] assms(3)
    by (simp add: concat_map_if concat_map_product)
  finally show ?thesis
    using True by (simp add: succ_store_def)
next
  case False
  then have late: "9 \<le> drop_phase_check pl" by simp
  have "refines a rs b
      (collect_store (\<lambda>row. collect_store (\<lambda>col. slide_from_store a p row col) (range1 5))
         (range1 5))
      (concat (map (\<lambda>r. concat (map (\<lambda>c.
         if b ! nat r ! nat c = p then slides b p r c else []) (range1 5))) (range1 5)))"
    by (intro refines_collect slide_from_store_refines assms) (simp_all add: set_range1)
  also have "concat (map (\<lambda>r. concat (map (\<lambda>c.
         if b ! nat r ! nat c = p then slides b p r c else []) (range1 5))) (range1 5)) = ys"
    using succ_slide [OF assms(2) late, of p] assms(3)
    by (simp add: concat_concat_product)
  finally show ?thesis
    using False by (simp add: succ_store_def)
qed

lemma succ_store_frame:
  assumes "wf_board state" "succ pl state p = Some ys"
    and "store_ok h" "board_at h a = Some state" "distinct_rows h a"
  shows "\<exists>es h'. succ_store pl a p h = Some (es, h')
    \<and> list_all2 (\<lambda>(m, n) (m', s'). m = m' \<and> board_at h' n = Some s') es ys
    \<and> board_at h' a = Some state
    \<and> (\<forall>x < fresh h. objects h' x = objects h x)"
proof -
  from assms(4,5) obtain rs where rs: "objects h a = Some (Grid rs)" "rows_at h rs = Some state"
    "distinct rs"
    by (auto simp: board_at_def distinct_rows_def split: option.splits pyobj.splits)
  with assms(3) have hb: "holds_board h a rs state"
    by (simp add: holds_board_def)
  from succ_store_refines [OF rs(3) assms(1,2)] hb
  obtain es h' where "succ_store pl a p h = Some (es, h')" "store_ok h'" "extends h h'"
    "represents h' es ys"
    by (rule refinesD)
  moreover from this board_at_extends [OF assms(3) _ assms(4)]
  have "board_at h' a = Some state" by simp
  ultimately show ?thesis
    by (auto simp: represents_def extends_def)
qed

text \<open>
  Claim C6. On a 5x5 board, with the phase counter below 9, \<^verbatim>\<open>succ\<close> returns without
  an exception as many entries as the board has empty cells; the moves are pairwise
  different; each entry is a one-tuple move onto a cell that is empty in the input,
  paired with a 5x5 board that holds the piece at that cell and agrees with the input
  everywhere else. Run over a store that holds the board at an address, with rows that
  are pairwise different objects, \<^verbatim>\<open>succ\<close> returns the same moves, paired with
  addresses at which the final store holds these boards; the final store still holds the
  input board at its address, and every object that existed before the call is as it
  was.
\<close>

theorem succ_drop_phase:
  assumes "wf_board state" and "drop_phase_check pl < 9"
    and "store_ok h" and "board_at h a = Some state" and "distinct_rows h a"
  shows "\<exists>ys es h'. succ pl state turn_piece = Some ys
    \<and> length ys = count_list (concat state) (CHR '' '')
    \<and> distinct (map fst ys)
    \<and> (\<forall>(m, s') \<in> set ys. \<exists>r \<in> {0..4}. \<exists>c \<in> {0..4}.
          m = [(r, c)] \<and> cell state r c = Some (CHR '' '') \<and> wf_board s'
          \<and> (\<forall>r' \<in> {0..4}. \<forall>c' \<in> {0..4}.
                cell s' r' c' = (if r' = r \<and> c' = c then Some turn_piece else cell state r' c')))
    \<and> succ_store pl a turn_piece h = Some (es, h')
    \<and> list_all2 (\<lambda>(m, n) (m', s'). m = m' \<and> board_at h' n = Some s') es ys
    \<and> board_at h' a = Some state
    \<and> (\<forall>x < fresh h. objects h' x = objects h x)"
proof -
  from succ_drop_entries [OF assms(1,2), of turn_piece]
  obtain ys where ys: "succ pl state turn_piece = Some ys"
    "length ys = count_list (concat state) (CHR '' '')" "distinct (map fst ys)"
    "\<forall>(m, s') \<in> set ys. \<exists>r \<in> {0..4}. \<exists>c \<in> {0..4}.
          m = [(r, c)] \<and> cell state r c = Some (CHR '' '') \<and> wf_board s'
          \<and> (\<forall>r' \<in> {0..4}. \<forall>c' \<in> {0..4}.
                cell s' r' c' = (if r' = r \<and> c' = c then Some turn_piece else cell state r' c'))"
    by blast
  from succ_store_frame [OF assms(1) ys(1) assms(3-5)]
  obtain es h' where "succ_store pl a turn_piece h = Some (es, h')"
    "list_all2 (\<lambda>(m, n) (m', s'). m = m' \<and> board_at h' n = Some s') es ys"
    "board_at h' a = Some state" "\<forall>x < fresh h. objects h' x = objects h x"
    by blast
  with ys show ?thesis
    by blast
qed

theorem succ_drop_phase_witness:
  "wf_board drop_position \<and> drop_phase_check (black 7) < 9
   \<and> store_ok sample_store \<and> board_at sample_store 5 = Some drop_position
   \<and> distinct_rows sample_store 5
   \<and> (\<exists>ys es h'. succ (black 7) drop_position (CHR ''b'') = Some ys
    \<and> length ys = count_list (concat drop_position) (CHR '' '')
    \<and> distinct (map fst ys)
    \<and> (\<forall>(m, s') \<in> set ys. \<exists>r \<in> {0..4}. \<exists>c \<in> {0..4}.
          m = [(r, c)] \<and> cell drop_position r c = Some (CHR '' '') \<and> wf_board s'
          \<and> (\<forall>r' \<in> {0..4}. \<forall>c' \<in> {0..4}.
                cell s' r' c' =
                  (if r' = r \<and> c' = c then Some (CHR ''b'') else cell drop_position r' c')))
    \<and> succ_store (black 7) 5 (CHR ''b'') sample_store = Some (es, h')
    \<and> list_all2 (\<lambda>(m, n) (m', s'). m = m' \<and> board_at h' n = Some s') es ys
    \<and> board_at h' 5 = Some drop_position
    \<and> (\<forall>x < fresh sample_store. objects h' x = objects sample_store x))"
proof -
  have wf: "wf_board drop_position"
    by (simp add: wf_board_def drop_position_def)
  have ph: "drop_phase_check (black 7) < 9"
    by (simp add: black_def)
  have ok: "store_ok sample_store"
    by (simp add: store_ok_def sample_store_def)
  have at: "board_at sample_store 5 = Some drop_position"
    by (simp add: board_at_def sample_store_def row_at_def drop_position_def)
  have rows: "distinct_rows sample_store 5"
    by (simp add: distinct_rows_def sample_store_def)
  from succ_drop_phase [OF wf ph ok at rows, of "CHR ''b''"] wf ph ok at rows show ?thesis
    by blast
qed

section \<open>Terminal detection: patterns\<close>

lemma scan_hit:
  "scan f xs = Some (Some v) \<Longrightarrow> \<exists>x \<in> set xs. f x = Some (Some v)"
  by (induction xs) (auto split: option.splits)

lemma scan_miss:
  "scan f xs = Some None \<Longrightarrow> x \<in> set xs \<Longrightarrow> f x = Some None"
  by (induction xs) (auto split: option.splits)

lemma winner_run_hit:
  assumes "winner_of pl a (run_of_four a b c d) = Some (Some v)"
  shows "\<exists>p. p \<noteq> CHR '' '' \<and> a = Some p \<and> b = Some p \<and> c = Some p \<and> d = Some p
     \<and> v = (if p = my_piece pl then 1 else - 1)"
  using assms
  by (cases a; cases b; cases c; cases d)
    (auto simp: winner_of_def run_of_four_def split: if_splits)

lemma winner_run_miss:
  assumes "winner_of pl a (run_of_four a b c d) = Some None"
  shows "\<not> (p \<noteq> CHR '' '' \<and> a = Some p \<and> b = Some p \<and> c = Some p \<and> d = Some p)"
  using assms
  by (auto simp: winner_of_def run_of_four_def split: if_splits)

lemma winner_run_total:
  assumes "a \<noteq> None" "b \<noteq> None" "c \<noteq> None" "d \<noteq> None"
  shows "winner_of pl a (run_of_four a b c d) \<noteq> None"
  using assms
  by (auto simp: winner_of_def run_of_four_def split: if_splits)

lemma winner_box_hit:
  assumes "winner_of pl a (box_test a m b c d) = Some (Some v)"
  shows "\<exists>p. p \<noteq> CHR '' '' \<and> m = Some (CHR '' '') \<and> a = Some p \<and> b = Some p
     \<and> c = Some p \<and> d = Some p \<and> v = (if p = my_piece pl then 1 else - 1)"
  using assms
  by (cases a; cases m; cases b; cases c; cases d)
    (auto simp: winner_of_def run_of_four_def box_test_def split: if_splits)

lemma winner_box_miss:
  assumes "winner_of pl a (box_test a m b c d) = Some None"
  shows "\<not> (p \<noteq> CHR '' '' \<and> m = Some (CHR '' '') \<and> a = Some p \<and> b = Some p
     \<and> c = Some p \<and> d = Some p)"
  using assms
  by (auto simp: winner_of_def run_of_four_def box_test_def split: if_splits)

lemma winner_box_total:
  assumes "a \<noteq> None" "m \<noteq> None" "b \<noteq> None" "c \<noteq> None" "d \<noteq> None"
  shows "winner_of pl a (box_test a m b c d) \<noteq> None"
  using assms
  by (auto simp: winner_of_def run_of_four_def box_test_def split: if_splits)

lemma set_range1_2: "set (range1 2) = {0..1}" and set_range1_3: "set (range1 3) = {0..2}"
  and set_range1_5: "set (range1 5) = {0..4}"
  by (simp_all add: set_range1)

lemma horizontal_hit:
  assumes "horizontal pl state = Some (Some v)"
  shows "\<exists>p. p \<noteq> CHR '' '' \<and> row_pattern state p \<and> v = (if p = my_piece pl then 1 else - 1)"
proof -
  from assms obtain row i where "row \<in> set state" "i \<in> {0..1}"
    "winner_of pl (getitem row i) (run_of_four (getitem row i) (getitem row (i + 1))
        (getitem row (i + 2)) (getitem row (i + 3))) = Some (Some v)"
    unfolding horizontal_def set_range1_2 [symmetric] by (blast dest!: scan_hit)
  then show ?thesis
    unfolding row_pattern_def by (blast dest!: winner_run_hit)
qed

lemma vertical_hit:
  assumes "vertical pl state = Some (Some v)"
  shows "\<exists>p. p \<noteq> CHR '' '' \<and> column_pattern state p
     \<and> v = (if p = my_piece pl then 1 else - 1)"
proof -
  from assms obtain col i where "col \<in> {0..4}" "i \<in> {0..1}"
    "winner_of pl (cell state i col) (run_of_four (cell state i col) (cell state (i + 1) col)
        (cell state (i + 2) col) (cell state (i + 3) col)) = Some (Some v)"
    unfolding vertical_def set_range1_2 [symmetric] set_range1_5 [symmetric]
    by (blast dest!: scan_hit)
  then show ?thesis
    unfolding column_pattern_def by (blast dest!: winner_run_hit)
qed

lemma diagonal_down_hit:
  assumes "diagonal_down pl state = Some (Some v)"
  shows "\<exists>p. p \<noteq> CHR '' '' \<and> falling_pattern state p
     \<and> v = (if p = my_piece pl then 1 else - 1)"
proof -
  from assms obtain row col where "row \<in> {0..1}" "col \<in> {0..1}"
    "winner_of pl (cell state row col)
       (run_of_four (cell state row col) (cell state (row + 1) (col + 1))
          (cell state (row + 2) (col + 2)) (cell state (row + 3) (col + 3))) = Some (Some v)"
    unfolding diagonal_down_def set_range1_2 [symmetric] by (blast dest!: scan_hit)
  then show ?thesis
    unfolding falling_pattern_def by (blast dest!: winner_run_hit)
qed

lemma diagonal_up_hit:
  assumes "diagonal_up pl state = Some (Some v)"
  shows "\<exists>p. p \<noteq> CHR '' '' \<and> rising_pattern state p
     \<and> v = (if p = my_piece pl then 1 else - 1)"
proof -
  from assms obtain row col where "row \<in> {0..1}" "col \<in> {0..1}"
    "winner_of pl (cell state row (4 - col))
       (run_of_four (cell state row (4 - col)) (cell state (row + 1) (3 - col))
          (cell state (row + 2) (2 - col)) (cell state (row + 3) (1 - col))) = Some (Some v)"
    unfolding diagonal_up_def set_range1_2 [symmetric] by (blast dest!: scan_hit)
  then show ?thesis
    unfolding rising_pattern_def by (blast dest!: winner_run_hit)
qed

lemma box_hit:
  assumes "box pl state = Some (Some v)"
  shows "\<exists>p. p \<noteq> CHR '' '' \<and> box_pattern state p
     \<and> v = (if p = my_piece pl then 1 else - 1)"
proof -
  from assms obtain row col where "row \<in> {0..2}" "col \<in> {0..2}"
    "winner_of pl (cell state row col)
       (box_test (cell state row col) (cell state (row + 1) (col + 1))
          (cell state row (col + 2)) (cell state (row + 2) col)
          (cell state (row + 2) (col + 2))) = Some (Some v)"
    unfolding box_def set_range1_3 [symmetric] by (blast dest!: scan_hit)
  then show ?thesis
    unfolding box_pattern_def by (blast dest!: winner_box_hit)
qed

lemma checks_hit:
  assumes "scan (\<lambda>check. check pl state)
      [horizontal, vertical, diagonal_down, diagonal_up, box] = Some (Some v)"
  shows "\<exists>p. has_pattern state p \<and> v = (if p = my_piece pl then 1 else - 1)"
proof -
  have "\<exists>check \<in> set [horizontal, vertical, diagonal_down, diagonal_up, box].
      check pl state = Some (Some v)"
    using assms by (rule scan_hit)
  then consider "horizontal pl state = Some (Some v)" | "vertical pl state = Some (Some v)"
    | "diagonal_down pl state = Some (Some v)" | "diagonal_up pl state = Some (Some v)"
    | "box pl state = Some (Some v)"
    by auto
  then show ?thesis
  proof cases
    case 1
    from horizontal_hit [OF this] show ?thesis
      unfolding has_pattern_def by blast
  next
    case 2
    from vertical_hit [OF this] show ?thesis
      unfolding has_pattern_def by blast
  next
    case 3
    from diagonal_down_hit [OF this] show ?thesis
      unfolding has_pattern_def by blast
  next
    case 4
    from diagonal_up_hit [OF this] show ?thesis
      unfolding has_pattern_def by blast
  next
    case 5
    from box_hit [OF this] show ?thesis
      unfolding has_pattern_def by blast
  qed
qed

lemma game_value_cases:
  obtains (raise) "game_value pl state = None"
  | (none) "game_value pl state = Some 0"
      "scan (\<lambda>check. check pl state)
         [horizontal, vertical, diagonal_down, diagonal_up, box] = Some None"
  | (win) p where "game_value pl state = Some (if p = my_piece pl then 1 else - 1)"
      "has_pattern state p"
proof (cases "scan (\<lambda>check. check pl state)
      [horizontal, vertical, diagonal_down, diagonal_up, box]")
  case None
  then have "game_value pl state = None"
    by (simp add: game_value_def)
  then show ?thesis by (rule raise)
next
  case (Some r)
  show ?thesis
  proof (cases r)
    case None
    with Some have "game_value pl state = Some 0"
      by (simp add: game_value_def)
    then show ?thesis using Some None by (intro none) simp_all
  next
    case inner: (Some v)
    with Some have gv: "game_value pl state = Some v"
      by (simp add: game_value_def)
    from checks_hit [of pl state v] Some inner
    obtain p where "has_pattern state p" "v = (if p = my_piece pl then 1 else - 1)"
      by auto
    with gv show ?thesis by (intro win [of p]) simp_all
  qed
qed

lemma game_value_hit:
  assumes "game_value pl state = Some v" "v \<noteq> 0"
  shows "\<exists>p. has_pattern state p \<and> v = (if p = my_piece pl then 1 else - 1)"
  using assms by (cases pl state rule: game_value_cases) auto

lemma horizontal_miss:
  assumes "horizontal pl state = Some None" "p \<noteq> CHR '' ''"
  shows "\<not> row_pattern state p"
proof
  assume "row_pattern state p"
  then obtain row i where ri: "row \<in> set state" "i \<in> set (range1 2)"
    and cells: "getitem row i = Some p" "getitem row (i + 1) = Some p"
      "getitem row (i + 2) = Some p" "getitem row (i + 3) = Some p"
    unfolding row_pattern_def set_range1_2 by blast
  from assms(1) have "scan (\<lambda>i. winner_of pl (getitem row i)
        (run_of_four (getitem row i) (getitem row (i + 1))
           (getitem row (i + 2)) (getitem row (i + 3)))) (range1 2) = Some None"
    unfolding horizontal_def by (rule scan_miss) (rule ri(1))
  from scan_miss [OF this ri(2)] have "\<not> (p \<noteq> CHR '' '' \<and> Some p = Some p
      \<and> Some p = Some p \<and> Some p = Some p \<and> Some p = Some p)"
    unfolding cells by (rule winner_run_miss)
  with assms(2) show False by simp
qed

lemma vertical_miss:
  assumes "vertical pl state = Some None" "p \<noteq> CHR '' ''"
  shows "\<not> column_pattern state p"
proof
  assume "column_pattern state p"
  then obtain col i where ri: "col \<in> set (range1 5)" "i \<in> set (range1 2)"
    and cells: "cell state i col = Some p" "cell state (i + 1) col = Some p"
      "cell state (i + 2) col = Some p" "cell state (i + 3) col = Some p"
    unfolding column_pattern_def set_range1_2 set_range1_5 by blast
  from assms(1) have "scan (\<lambda>i. winner_of pl (cell state i col)
        (run_of_four (cell state i col) (cell state (i + 1) col)
           (cell state (i + 2) col) (cell state (i + 3) col))) (range1 2) = Some None"
    unfolding vertical_def by (rule scan_miss) (rule ri(1))
  from scan_miss [OF this ri(2)] have "\<not> (p \<noteq> CHR '' '' \<and> Some p = Some p
      \<and> Some p = Some p \<and> Some p = Some p \<and> Some p = Some p)"
    unfolding cells by (rule winner_run_miss)
  with assms(2) show False by simp
qed

lemma diagonal_down_miss:
  assumes "diagonal_down pl state = Some None" "p \<noteq> CHR '' ''"
  shows "\<not> falling_pattern state p"
proof
  assume "falling_pattern state p"
  then obtain row col where ri: "row \<in> set (range1 2)" "col \<in> set (range1 2)"
    and cells: "cell state row col = Some p" "cell state (row + 1) (col + 1) = Some p"
      "cell state (row + 2) (col + 2) = Some p" "cell state (row + 3) (col + 3) = Some p"
    unfolding falling_pattern_def set_range1_2 by blast
  from assms(1) have "scan (\<lambda>col. winner_of pl (cell state row col)
        (run_of_four (cell state row col) (cell state (row + 1) (col + 1))
           (cell state (row + 2) (col + 2)) (cell state (row + 3) (col + 3))))
        (range1 2) = Some None"
    unfolding diagonal_down_def by (rule scan_miss) (rule ri(1))
  from scan_miss [OF this ri(2)] have "\<not> (p \<noteq> CHR '' '' \<and> Some p = Some p
      \<and> Some p = Some p \<and> Some p = Some p \<and> Some p = Some p)"
    unfolding cells by (rule winner_run_miss)
  with assms(2) show False by simp
qed

lemma diagonal_up_miss:
  assumes "diagonal_up pl state = Some None" "p \<noteq> CHR '' ''"
  shows "\<not> rising_pattern state p"
proof
  assume "rising_pattern state p"
  then obtain row col where ri: "row \<in> set (range1 2)" "col \<in> set (range1 2)"
    and cells: "cell state row (4 - col) = Some p" "cell state (row + 1) (3 - col) = Some p"
      "cell state (row + 2) (2 - col) = Some p" "cell state (row + 3) (1 - col) = Some p"
    unfolding rising_pattern_def set_range1_2 by blast
  from assms(1) have "scan (\<lambda>col. winner_of pl (cell state row (4 - col))
        (run_of_four (cell state row (4 - col)) (cell state (row + 1) (3 - col))
           (cell state (row + 2) (2 - col)) (cell state (row + 3) (1 - col))))
        (range1 2) = Some None"
    unfolding diagonal_up_def by (rule scan_miss) (rule ri(1))
  from scan_miss [OF this ri(2)] have "\<not> (p \<noteq> CHR '' '' \<and> Some p = Some p
      \<and> Some p = Some p \<and> Some p = Some p \<and> Some p = Some p)"
    unfolding cells by (rule winner_run_miss)
  with assms(2) show False by simp
qed

lemma box_miss:
  assumes "box pl state = Some None" "p \<noteq> CHR '' ''"
  shows "\<not> box_pattern state p"
proof
  assume "box_pattern state p"
  then obtain row col where ri: "row \<in> set (range1 3)" "col \<in> set (range1 3)"
    and cells: "cell state (row + 1) (col + 1) = Some (CHR '' '')"
      "cell state row col = Some p" "cell state row (col + 2) = Some p"
      "cell state (row + 2) col = Some p" "cell state (row + 2) (col + 2) = Some p"
    unfolding box_pattern_def set_range1_3 by blast
  from assms(1) have "scan (\<lambda>col. winner_of pl (cell state row col)
        (box_test (cell state row col) (cell state (row + 1) (col + 1))
           (cell state row (col + 2)) (cell state (row + 2) col)
           (cell state (row + 2) (col + 2)))) (range1 3) = Some None"
    unfolding box_def by (rule scan_miss) (rule ri(1))
  from scan_miss [OF this ri(2)] have "\<not> (p \<noteq> CHR '' '' \<and> Some (CHR '' '') = Some (CHR '' '')
      \<and> Some p = Some p \<and> Some p = Some p \<and> Some p = Some p \<and> Some p = Some p)"
    unfolding cells by (rule winner_box_miss)
  with assms(2) show False by simp
qed

lemma game_value_miss:
  assumes "game_value pl state = Some 0"
  shows "\<not> has_pattern state p"
proof (cases pl state rule: game_value_cases)
  case raise
  with assms show ?thesis by simp
next
  case none
  have "check pl state = Some None"
    if "check \<in> set [horizontal, vertical, diagonal_down, diagonal_up, box]" for check
    using none(2) that by (rule scan_miss)
  then have misses: "horizontal pl state = Some None" "vertical pl state = Some None"
    "diagonal_down pl state = Some None" "diagonal_up pl state = Some None"
    "box pl state = Some None"
    by simp_all
  show ?thesis
  proof (cases "p = CHR '' ''")
    case True
    then show ?thesis by (simp add: has_pattern_def)
  next
    case False
    with misses show ?thesis
      by (simp add: has_pattern_def horizontal_miss vertical_miss diagonal_down_miss
          diagonal_up_miss box_miss)
  qed
next
  case (win q)
  with assms show ?thesis by (simp split: if_splits)
qed

lemma scan_total: "(\<And>x. x \<in> set xs \<Longrightarrow> f x \<noteq> None) \<Longrightarrow> scan f xs \<noteq> None"
  by (induction xs) (auto split: option.splits)

lemma cell_total:
  "wf_board state \<Longrightarrow> r \<in> {0..4} \<Longrightarrow> c \<in> {0..4} \<Longrightarrow> cell state r c \<noteq> None"
  by (simp add: cell_wf)

lemma getitem_total: "length row = 5 \<Longrightarrow> i \<in> {0..4} \<Longrightarrow> getitem row i \<noteq> None"
  by (simp add: getitem_in_range)

lemma horizontal_total:
  assumes "wf_board state"
  shows "horizontal pl state \<noteq> None"
  unfolding horizontal_def
  by (intro scan_total winner_run_total getitem_total)
    (use assms in \<open>auto simp: wf_board_def set_range1\<close>)

lemma vertical_total:
  assumes "wf_board state"
  shows "vertical pl state \<noteq> None"
  unfolding vertical_def
  by (intro scan_total winner_run_total cell_total assms) (auto simp: set_range1)

lemma diagonal_down_total:
  assumes "wf_board state"
  shows "diagonal_down pl state \<noteq> None"
  unfolding diagonal_down_def
  by (intro scan_total winner_run_total cell_total assms) (auto simp: set_range1)

lemma diagonal_up_total:
  assumes "wf_board state"
  shows "diagonal_up pl state \<noteq> None"
  unfolding diagonal_up_def
  by (intro scan_total winner_run_total cell_total assms) (auto simp: set_range1)

lemma box_total:
  assumes "wf_board state"
  shows "box pl state \<noteq> None"
  unfolding box_def
  by (intro scan_total winner_box_total cell_total assms) (auto simp: set_range1)

lemma game_value_total:
  assumes "wf_board state"
  shows "game_value pl state \<noteq> None"
proof -
  have "scan (\<lambda>check. check pl state)
      [horizontal, vertical, diagonal_down, diagonal_up, box] \<noteq> None"
    using horizontal_total [OF assms, of pl] vertical_total [OF assms, of pl]
      diagonal_down_total [OF assms, of pl] diagonal_up_total [OF assms, of pl]
      box_total [OF assms, of pl]
    by (intro scan_total) auto
  then show ?thesis
    by (auto simp: game_value_def split: option.splits)
qed

lemma game_value_range:
  assumes "wf_board state"
  shows "game_value pl state \<in> {Some (- 1), Some 0, Some 1}"
  using game_value_total [OF assms, of pl]
  by (cases pl state rule: game_value_cases) auto

lemma game_value_no_pattern:
  assumes "wf_board state" "\<And>p. \<not> has_pattern state p"
  shows "game_value pl state = Some 0"
  using game_value_total [OF assms(1), of pl] assms(2)
  by (cases pl state rule: game_value_cases) auto

lemma game_value_sole_winner:
  assumes "wf_board state" "has_pattern state p" "\<And>q. q \<noteq> p \<Longrightarrow> \<not> has_pattern state q"
  shows "game_value pl state = Some (if p = my_piece pl then 1 else - 1)"
proof (cases pl state rule: game_value_cases)
  case raise
  with game_value_total [OF assms(1), of pl] show ?thesis by simp
next
  case none
  from game_value_miss [OF none(1), of p] assms(2) show ?thesis by simp
next
  case (win q)
  with assms(3) [of q] have "q = p" by auto
  with win show ?thesis by simp
qed

lemma first_row_wins:
  assumes "wf_board state" "p \<noteq> CHR '' ''"
    and "cell state 0 0 = Some p" "cell state 0 1 = Some p"
    and "cell state 0 2 = Some p" "cell state 0 3 = Some p"
  shows "game_value pl state = Some (if p = my_piece pl then 1 else - 1)"
proof -
  from assms(1) obtain r0 rest where s: "state = r0 # rest"
    by (cases state) (auto simp: wf_board_def)
  with assms(3-6) have "getitem r0 0 = Some p" "getitem r0 1 = Some p"
    "getitem r0 2 = Some p" "getitem r0 3 = Some p"
    by (simp_all add: cell_def getitem_def)
  then have "horizontal pl state = Some (Some (if p = my_piece pl then 1 else - 1))"
    using assms(2)
    by (simp add: horizontal_def s range1_2 winner_of_def run_of_four_def)
  then show ?thesis
    by (simp add: game_value_def)
qed

lemma getitem_member: "getitem xs i = Some x \<Longrightarrow> x \<in> set xs"
  by (auto simp: getitem_def split: if_splits)

lemma cell_member: "cell state r c = Some x \<Longrightarrow> \<exists>row \<in> set state. x \<in> set row"
  by (auto simp: cell_def split: bind_splits dest: getitem_member)

lemma has_pattern_member:
  assumes "has_pattern state p"
  shows "\<exists>row \<in> set state. p \<in> set row"
  using assms
  unfolding has_pattern_def row_pattern_def column_pattern_def falling_pattern_def
    rising_pattern_def box_pattern_def
  by (blast dest: getitem_member cell_member)

lemma valid_player_pieces:
  assumes "valid_player pl"
  shows "my_piece pl \<noteq> CHR '' ''" "opp pl \<noteq> CHR '' ''" "opp pl \<noteq> my_piece pl"
  using assms by (auto simp: valid_player_def pieces_def)

lemma empty_board_value: "game_value pl empty_board = Some 0"
proof (rule game_value_no_pattern)
  show "wf_board empty_board"
    by (simp add: wf_board_def empty_board_def)
  show "\<not> has_pattern empty_board p" for p
  proof
    assume p: "has_pattern empty_board p"
    then have "p = CHR '' ''"
      by (auto dest!: has_pattern_member simp: empty_board_def)
    with p show False by (simp add: has_pattern_def)
  qed
qed

text \<open>
  Claim C5, as amended. For a player built by \<^verbatim>\<open>__init__\<close> and 5x5 boards:
  \<^verbatim>\<open>game_value\<close> returns 1 when the cells (0,0), (0,1), (0,2), (0,3) all hold the
  player's piece and -1 when they all hold the opponent's piece, whatever the rest of the
  board holds (this is the first test of the scan); it returns 0 on the all-empty board;
  it returns 1 when the player's piece holds the four corners of a 3x3 square with an
  empty centre and no other piece completes a pattern; and it returns 0 when no piece
  completes a row, column or diagonal pattern and every 3x3 square whose corners hold
  one piece has an occupied centre.
\<close>

theorem game_value_patterns:
  assumes "valid_player pl"
  shows "(\<forall>state. wf_board state
            \<and> cell state 0 0 = Some (my_piece pl) \<and> cell state 0 1 = Some (my_piece pl)
            \<and> cell state 0 2 = Some (my_piece pl) \<and> cell state 0 3 = Some (my_piece pl)
          \<longrightarrow> game_value pl state = Some 1)
    \<and> (\<forall>state. wf_board state
            \<and> cell state 0 0 = Some (opp pl) \<and> cell state 0 1 = Some (opp pl)
            \<and> cell state 0 2 = Some (opp pl) \<and> cell state 0 3 = Some (opp pl)
          \<longrightarrow> game_value pl state = Some (- 1))
    \<and> game_value pl empty_board = Some 0
    \<and> (\<forall>state. \<forall>r \<in> {0..2}. \<forall>c \<in> {0..2}. wf_board state
            \<and> cell state r c = Some (my_piece pl) \<and> cell state r (c + 2) = Some (my_piece pl)
            \<and> cell state (r + 2) c = Some (my_piece pl)
            \<and> cell state (r + 2) (c + 2) = Some (my_piece pl)
            \<and> cell state (r + 1) (c + 1) = Some (CHR '' '')
            \<and> (\<forall>q. q \<noteq> my_piece pl \<longrightarrow> \<not> has_pattern state q)
          \<longrightarrow> game_value pl state = Some 1)
    \<and> (\<forall>state. wf_board state
            \<and> (\<forall>p. p \<noteq> CHR '' '' \<longrightarrow>
                  \<not> row_pattern state p \<and> \<not> column_pattern state p
                  \<and> \<not> falling_pattern state p \<and> \<not> rising_pattern state p
                  \<and> (\<forall>r \<in> {0..2}. \<forall>c \<in> {0..2}.
                        cell state r c = Some p \<and> cell state r (c + 2) = Some p
                        \<and> cell state (r + 2) c = Some p \<and> cell state (r + 2) (c + 2) = Some p
                        \<longrightarrow> cell state (r + 1) (c + 1) \<noteq> Some (CHR '' '')))
          \<longrightarrow> game_value pl state = Some 0)"
proof (intro conjI allI ballI impI)
  fix state
  assume "wf_board state
            \<and> cell state 0 0 = Some (my_piece pl) \<and> cell state 0 1 = Some (my_piece pl)
            \<and> cell state 0 2 = Some (my_piece pl) \<and> cell state 0 3 = Some (my_piece pl)"
  with first_row_wins [of state "my_piece pl" pl] valid_player_pieces(1) [OF assms]
  show "game_value pl state = Some 1" by simp
next
  fix state
  assume "wf_board state
            \<and> cell state 0 0 = Some (opp pl) \<and> cell state 0 1 = Some (opp pl)
            \<and> cell state 0 2 = Some (opp pl) \<and> cell state 0 3 = Some (opp pl)"
  with first_row_wins [of state "opp pl" pl] valid_player_pieces(2,3) [OF assms]
  show "game_value pl state = Some (- 1)" by simp
next
  show "game_value pl empty_board = Some 0"
    by (rule empty_board_value)
next
  fix state and r c :: int
  assume rc: "r \<in> {0..2}" "c \<in> {0..2}"
    and h: "wf_board state
            \<and> cell state r c = Some (my_piece pl) \<and> cell state r (c + 2) = Some (my_piece pl)
            \<and> cell state (r + 2) c = Some (my_piece pl)
            \<and> cell state (r + 2) (c + 2) = Some (my_piece pl)
            \<and> cell state (r + 1) (c + 1) = Some (CHR '' '')
            \<and> (\<forall>q. q \<noteq> my_piece pl \<longrightarrow> \<not> has_pattern state q)"
  from rc h have "box_pattern state (my_piece pl)"
    unfolding box_pattern_def by blast
  then have "has_pattern state (my_piece pl)"
    using valid_player_pieces(1) [OF assms] by (simp add: has_pattern_def)
  with h game_value_sole_winner [of state "my_piece pl" pl]
  show "game_value pl state = Some 1" by simp
next
  fix state
  assume h: "wf_board state
            \<and> (\<forall>p. p \<noteq> CHR '' '' \<longrightarrow>
                  \<not> row_pattern state p \<and> \<not> column_pattern state p
                  \<and> \<not> falling_pattern state p \<and> \<not> rising_pattern state p
                  \<and> (\<forall>r \<in> {0..2}. \<forall>c \<in> {0..2}.
                        cell state r c = Some p \<and> cell state r (c + 2) = Some p
                        \<and> cell state (r + 2) c = Some p \<and> cell state (r + 2) (c + 2) = Some p
                        \<longrightarrow> cell state (r + 1) (c + 1) \<noteq> Some (CHR '' '')))"
  have "\<not> has_pattern state p" for p
  proof (cases "p = CHR '' ''")
    case True
    then show ?thesis by (simp add: has_pattern_def)
  next
    case False
    with h have "\<not> box_pattern state p"
      unfolding box_pattern_def by blast
    with h False show ?thesis
      by (simp add: has_pattern_def)
  qed
  with h show "game_value pl state = Some 0"
    by (intro game_value_no_pattern) simp_all
qed

text \<open>
  Without the condition on the other piece the box part fails: black holds the corners
  (0,0), (0,2), (2,0), (2,2) around an empty centre, red holds four cells of the bottom
  row, and the horizontal scan, which runs first, returns -1.
\<close>

theorem box_with_opponent_row:
  "wf_board corners_and_row \<and> valid_player (black 9)
   \<and> cell corners_and_row 0 0 = Some (my_piece (black 9))
   \<and> cell corners_and_row 0 2 = Some (my_piece (black 9))
   \<and> cell corners_and_row 2 0 = Some (my_piece (black 9))
   \<and> cell corners_and_row 2 2 = Some (my_piece (black 9))
   \<and> cell corners_and_row 1 1 = Some (CHR '' '')
   \<and> game_value (black 9) corners_and_row = Some (- 1)"
  by code_simp

theorem game_value_patterns_witness:
  "valid_player (black 0)
   \<and> (wf_board (top_row (CHR ''b''))
      \<and> cell (top_row (CHR ''b'')) 0 0 = Some (my_piece (black 0))
      \<and> cell (top_row (CHR ''b'')) 0 1 = Some (my_piece (black 0))
      \<and> cell (top_row (CHR ''b'')) 0 2 = Some (my_piece (black 0))
      \<and> cell (top_row (CHR ''b'')) 0 3 = Some (my_piece (black 0))
      \<and> game_value (black 0) (top_row (CHR ''b'')) = Some 1)
   \<and> (wf_board (top_row (CHR ''r''))
      \<and> cell (top_row (CHR ''r'')) 0 0 = Some (opp (black 0))
      \<and> cell (top_row (CHR ''r'')) 0 1 = Some (opp (black 0))
      \<and> cell (top_row (CHR ''r'')) 0 2 = Some (opp (black 0))
      \<and> cell (top_row (CHR ''r'')) 0 3 = Some (opp (black 0))
      \<and> game_value (black 0) (top_row (CHR ''r'')) = Some (- 1))
   \<and> (wf_board (corners (CHR ''b'') (CHR '' ''))
      \<and> cell (corners (CHR ''b'') (CHR '' '')) 0 0 = Some (my_piece (black 0))
      \<and> cell (corners (CHR ''b'') (CHR '' '')) 0 2 = Some (my_piece (black 0))
      \<and> cell (corners (CHR ''b'') (CHR '' '')) 2 0 = Some (my_piece (black 0))
      \<and> cell (corners (CHR ''b'') (CHR '' '')) 2 2 = Some (my_piece (black 0))
      \<and> cell (corners (CHR ''b'') (CHR '' '')) 1 1 = Some (CHR '' '')
      \<and> \<not> (\<exists>q. q \<noteq> my_piece (black 0) \<and> has_pattern (corners (CHR ''b'') (CHR '' '')) q)
      \<and> game_value (black 0) (corners (CHR ''b'') (CHR '' '')) = Some 1)
   \<and> (wf_board (corners (CHR ''b'') (CHR ''r''))
      \<and> cell (corners (CHR ''b'') (CHR ''r'')) 0 0 = Some (CHR ''b'')
      \<and> cell (corners (CHR ''b'') (CHR ''r'')) 0 2 = Some (CHR ''b'')
      \<and> cell (corners (CHR ''b'') (CHR ''r'')) 2 0 = Some (CHR ''b'')
      \<and> cell (corners (CHR ''b'') (CHR ''r'')) 2 2 = Some (CHR ''b'')
      \<and> cell (corners (CHR ''b'') (CHR ''r'')) 1 1 = Some (CHR ''r'')
      \<and> (\<forall>p. \<not> has_pattern (corners (CHR ''b'') (CHR ''r'')) p)
      \<and> game_value (black 0) (corners (CHR ''b'') (CHR ''r'')) = Some 0)"
proof -
  have vp: "valid_player (black 0)"
    by code_simp
  note T = game_value_patterns [OF vp]
  have row_b: "wf_board (top_row (CHR ''b''))
      \<and> cell (top_row (CHR ''b'')) 0 0 = Some (my_piece (black 0))
      \<and> cell (top_row (CHR ''b'')) 0 1 = Some (my_piece (black 0))
      \<and> cell (top_row (CHR ''b'')) 0 2 = Some (my_piece (black 0))
      \<and> cell (top_row (CHR ''b'')) 0 3 = Some (my_piece (black 0))"
    by code_simp
  have row_r: "wf_board (top_row (CHR ''r''))
      \<and> cell (top_row (CHR ''r'')) 0 0 = Some (opp (black 0))
      \<and> cell (top_row (CHR ''r'')) 0 1 = Some (opp (black 0))
      \<and> cell (top_row (CHR ''r'')) 0 2 = Some (opp (black 0))
      \<and> cell (top_row (CHR ''r'')) 0 3 = Some (opp (black 0))"
    by code_simp
  have box_b: "wf_board (corners (CHR ''b'') (CHR '' ''))
      \<and> cell (corners (CHR ''b'') (CHR '' '')) 0 0 = Some (my_piece (black 0))
      \<and> cell (corners (CHR ''b'') (CHR '' '')) 0 (0 + 2) = Some (my_piece (black 0))
      \<and> cell (corners (CHR ''b'') (CHR '' '')) (0 + 2) 0 = Some (my_piece (black 0))
      \<and> cell (corners (CHR ''b'') (CHR '' '')) (0 + 2) (0 + 2) = Some (my_piece (black 0))
      \<and> cell (corners (CHR ''b'') (CHR '' '')) (0 + 1) (0 + 1) = Some (CHR '' '')"
    by code_simp
  have sole: "\<not> has_pattern (corners (CHR ''b'') (CHR '' '')) q" if "q \<noteq> my_piece (black 0)" for q
  proof
    assume q: "has_pattern (corners (CHR ''b'') (CHR '' '')) q"
    then have "q = CHR ''b'' \<or> q = CHR '' ''"
      by (auto dest!: has_pattern_member simp: corners_def)
    with q that show False
      by (auto simp: has_pattern_def black_def init_player_def)
  qed
  have blocked: "wf_board (corners (CHR ''b'') (CHR ''r''))
      \<and> cell (corners (CHR ''b'') (CHR ''r'')) 0 0 = Some (CHR ''b'')
      \<and> cell (corners (CHR ''b'') (CHR ''r'')) 0 2 = Some (CHR ''b'')
      \<and> cell (corners (CHR ''b'') (CHR ''r'')) 2 0 = Some (CHR ''b'')
      \<and> cell (corners (CHR ''b'') (CHR ''r'')) 2 2 = Some (CHR ''b'')
      \<and> cell (corners (CHR ''b'') (CHR ''r'')) 1 1 = Some (CHR ''r'')"
    by code_simp
  have "game_value (black 0) (corners (CHR ''b'') (CHR ''r'')) = Some 0"
    by code_simp
  then have none: "\<not> has_pattern (corners (CHR ''b'') (CHR ''r'')) p" for p
    by (rule game_value_miss)
  have none': "p \<noteq> CHR '' '' \<longrightarrow>
      \<not> row_pattern (corners (CHR ''b'') (CHR ''r'')) p
      \<and> \<not> column_pattern (corners (CHR ''b'') (CHR ''r'')) p
      \<and> \<not> falling_pattern (corners (CHR ''b'') (CHR ''r'')) p
      \<and> \<not> rising_pattern (corners (CHR ''b'') (CHR ''r'')) p
      \<and> (\<forall>r \<in> {0..2}. \<forall>c \<in> {0..2}.
            cell (corners (CHR ''b'') (CHR ''r'')) r c = Some p
            \<and> cell (corners (CHR ''b'') (CHR ''r'')) r (c + 2) = Some p
            \<and> cell (corners (CHR ''b'') (CHR ''r'')) (r + 2) c = Some p
            \<and> cell (corners (CHR ''b'') (CHR ''r'')) (r + 2) (c + 2) = Some p
            \<longrightarrow> cell (corners (CHR ''b'') (CHR ''r'')) (r + 1) (c + 1) \<noteq> Some (CHR '' ''))" for p
    using none [of p] unfolding has_pattern_def box_pattern_def by blast
  from T row_b have 1: "game_value (black 0) (top_row (CHR ''b'')) = Some 1"
    by blast
  from T row_r have 2: "game_value (black 0) (top_row (CHR ''r'')) = Some (- 1)"
    by blast
  from T have "\<forall>state. \<forall>r \<in> {0..2}. \<forall>c \<in> {0..2}. wf_board state
            \<and> cell state r c = Some (my_piece (black 0))
            \<and> cell state r (c + 2) = Some (my_piece (black 0))
            \<and> cell state (r + 2) c = Some (my_piece (black 0))
            \<and> cell state (r + 2) (c + 2) = Some (my_piece (black 0))
            \<and> cell state (r + 1) (c + 1) = Some (CHR '' '')
            \<and> (\<forall>q. q \<noteq> my_piece (black 0) \<longrightarrow> \<not> has_pattern state q)
          \<longrightarrow> game_value (black 0) state = Some 1"
    by (elim conjE)
  then have "wf_board (corners (CHR ''b'') (CHR '' ''))
            \<and> cell (corners (CHR ''b'') (CHR '' '')) 0 0 = Some (my_piece (black 0))
            \<and> cell (corners (CHR ''b'') (CHR '' '')) 0 (0 + 2) = Some (my_piece (black 0))
            \<and> cell (corners (CHR ''b'') (CHR '' '')) (0 + 2) 0 = Some (my_piece (black 0))
            \<and> cell (corners (CHR ''b'') (CHR '' '')) (0 + 2) (0 + 2) = Some (my_piece (black 0))
            \<and> cell (corners (CHR ''b'') (CHR '' '')) (0 + 1) (0 + 1) = Some (CHR '' '')
            \<and> (\<forall>q. q \<noteq> my_piece (black 0) \<longrightarrow> \<not> has_pattern (corners (CHR ''b'') (CHR '' '')) q)
          \<longrightarrow> game_value (black 0) (corners (CHR ''b'') (CHR '' '')) = Some 1"
    by (elim allE [of _ "corners (CHR ''b'') (CHR '' '')"] ballE [of _ _ 0]) simp_all
  with box_b sole have 3: "game_value (black 0) (corners (CHR ''b'') (CHR '' '')) = Some 1"
    by blast
  from T blocked none' have 4: "game_value (black 0) (corners (CHR ''b'') (CHR ''r'')) = Some 0"
    by blast
  from box_b have box_b': "wf_board (corners (CHR ''b'') (CHR '' ''))
      \<and> cell (corners (CHR ''b'') (CHR '' '')) 0 0 = Some (my_piece (black 0))
      \<and> cell (corners (CHR ''b'') (CHR '' '')) 0 2 = Some (my_piece (black 0))
      \<and> cell (corners (CHR ''b'') (CHR '' '')) 2 0 = Some (my_piece (black 0))
      \<and> cell (corners (CHR ''b'') (CHR '' '')) 2 2 = Some (my_piece (black 0))
      \<and> cell (corners (CHR ''b'') (CHR '' '')) 1 1 = Some (CHR '' '')"
    by simp
  from vp row_b row_r box_b' sole blocked none 1 2 3 4 show ?thesis
    by blast
qed

section \<open>Terminal detection: exchanging the colours\<close>

lemma swap_piece_eq [simp]: "swap_piece x = swap_piece y \<longleftrightarrow> x = y"
  by (auto simp: swap_piece_def)

lemma swap_piece_space [simp]: "swap_piece x = CHR '' '' \<longleftrightarrow> x = CHR '' ''"
  by (auto simp: swap_piece_def)

lemma swap_piece_twice [simp]: "swap_piece (swap_piece x) = x"
  by (auto simp: swap_piece_def)

lemma swap_board_twice: "swap_board (swap_board state) = state"
  by (simp add: swap_board_def comp_def map_idI)

lemma getitem_map: "getitem (map f xs) i = map_option f (getitem xs i)"
proof -
  have "nat (int (length xs) + i) < length xs" if "i < 0" "- int (length xs) \<le> i"
    using that by linarith
  then show ?thesis
    by (simp add: getitem_def nat_less_iff)
qed

lemma cell_map: "cell (map (map f) state) r c = map_option f (cell state r c)"
  by (cases "getitem state r") (simp_all add: cell_def getitem_map)

lemma scan_cong: "(\<And>x. x \<in> set xs \<Longrightarrow> f x = g x) \<Longrightarrow> scan f xs = scan g xs"
  by (induction xs) (auto split: option.splits)

lemma scan_map: "scan f (map h xs) = scan (\<lambda>x. f (h x)) xs"
  by (induction xs) (auto split: option.splits)

lemma scan_negate:
  "scan (\<lambda>x. map_option (map_option uminus) (f x)) xs =
   map_option (map_option uminus) (scan f xs)"
  by (induction xs) (auto split: option.splits)

lemma run_of_four_swap:
  "run_of_four (map_option swap_piece a) (map_option swap_piece b)
     (map_option swap_piece c) (map_option swap_piece d) = run_of_four a b c d"
  by (cases a; cases b; cases c; cases d) (simp_all add: run_of_four_def)

lemma box_test_swap:
  "box_test (map_option swap_piece a) (map_option swap_piece m) (map_option swap_piece b)
     (map_option swap_piece c) (map_option swap_piece d) = box_test a m b c d"
  using run_of_four_swap [of a b c d]
  by (cases a; cases m) (simp_all add: box_test_def)

lemma winner_of_both:
  assumes "my_piece pl' = swap_piece (my_piece pl)"
  shows "winner_of pl' (map_option swap_piece a) t = winner_of pl a t"
  using assms by (cases a; cases t) (simp_all add: winner_of_def)

lemma swap_piece_other:
  "x \<in> set pieces \<Longrightarrow> m \<in> set pieces \<Longrightarrow> swap_piece x = m \<longleftrightarrow> x \<noteq> m"
  by (auto simp: pieces_def swap_piece_def)

lemma winner_of_negate:
  assumes "my_piece pl \<in> set pieces"
    and "\<And>x. a = Some x \<Longrightarrow> x \<in> insert (CHR '' '') (set pieces)"
    and "t = Some True \<Longrightarrow> a \<noteq> Some (CHR '' '')"
  shows "winner_of pl (map_option swap_piece a) t =
    map_option (map_option uminus) (winner_of pl a t)"
proof (cases t)
  case None
  then show ?thesis by (simp add: winner_of_def)
next
  case (Some flag)
  show ?thesis
  proof (cases a)
    case None
    with Some show ?thesis by (simp add: winner_of_def)
  next
    case inner: (Some x)
    show ?thesis
    proof (cases flag)
      case True
      with Some inner assms(2,3) have "x \<in> set pieces" by auto
      from swap_piece_other [OF this assms(1)] Some inner True show ?thesis
        by (simp add: winner_of_def)
    next
      case False
      with Some inner show ?thesis by (simp add: winner_of_def)
    qed
  qed
qed

lemma run_of_four_True: "run_of_four a b c d = Some True \<Longrightarrow> a \<noteq> Some (CHR '' '')"
  by (auto simp: run_of_four_def split: if_splits)

lemma box_test_True: "box_test a m b c d = Some True \<Longrightarrow> a \<noteq> Some (CHR '' '')"
  by (auto simp: box_test_def split: if_splits)

lemma run_check_both:
  assumes "my_piece pl' = swap_piece (my_piece pl)"
  shows "winner_of pl' (map_option swap_piece a)
      (run_of_four (map_option swap_piece a) (map_option swap_piece b)
         (map_option swap_piece c) (map_option swap_piece d)) =
    winner_of pl a (run_of_four a b c d)"
  by (simp add: run_of_four_swap winner_of_both [OF assms])

lemma box_check_both:
  assumes "my_piece pl' = swap_piece (my_piece pl)"
  shows "winner_of pl' (map_option swap_piece a)
      (box_test (map_option swap_piece a) (map_option swap_piece m) (map_option swap_piece b)
         (map_option swap_piece c) (map_option swap_piece d)) =
    winner_of pl a (box_test a m b c d)"
  by (simp add: box_test_swap winner_of_both [OF assms])

lemma run_check_negate:
  assumes "my_piece pl \<in> set pieces"
    and "\<And>x. a = Some x \<Longrightarrow> x \<in> insert (CHR '' '') (set pieces)"
  shows "winner_of pl (map_option swap_piece a)
      (run_of_four (map_option swap_piece a) (map_option swap_piece b)
         (map_option swap_piece c) (map_option swap_piece d)) =
    map_option (map_option uminus) (winner_of pl a (run_of_four a b c d))"
  unfolding run_of_four_swap
  using assms by (intro winner_of_negate run_of_four_True)

lemma box_check_negate:
  assumes "my_piece pl \<in> set pieces"
    and "\<And>x. a = Some x \<Longrightarrow> x \<in> insert (CHR '' '') (set pieces)"
  shows "winner_of pl (map_option swap_piece a)
      (box_test (map_option swap_piece a) (map_option swap_piece m) (map_option swap_piece b)
         (map_option swap_piece c) (map_option swap_piece d)) =
    map_option (map_option uminus) (winner_of pl a (box_test a m b c d))"
  unfolding box_test_swap
  using assms by (intro winner_of_negate box_test_True)

lemma cell_pieces_only:
  "pieces_only state \<Longrightarrow> cell state r c = Some x \<Longrightarrow> x \<in> insert (CHR '' '') (set pieces)"
  unfolding pieces_only_def by (blast dest: cell_member)

lemma checks_both:
  assumes "my_piece pl' = swap_piece (my_piece pl)"
  shows "horizontal pl' (swap_board state) = horizontal pl state"
    and "vertical pl' (swap_board state) = vertical pl state"
    and "diagonal_down pl' (swap_board state) = diagonal_down pl state"
    and "diagonal_up pl' (swap_board state) = diagonal_up pl state"
    and "box pl' (swap_board state) = box pl state"
  unfolding horizontal_def vertical_def diagonal_down_def diagonal_up_def box_def
    swap_board_def scan_map getitem_map cell_map
    run_check_both [OF assms] box_check_both [OF assms]
  by (rule refl)+

lemma game_value_both:
  assumes "my_piece pl' = swap_piece (my_piece pl)"
  shows "game_value pl' (swap_board state) = game_value pl state"
proof -
  have "scan (\<lambda>check. check pl' (swap_board state))
          [horizontal, vertical, diagonal_down, diagonal_up, box] =
        scan (\<lambda>check. check pl state)
          [horizontal, vertical, diagonal_down, diagonal_up, box]"
    by (rule scan_cong) (auto simp: checks_both [OF assms])
  then show ?thesis
    by (simp add: game_value_def)
qed

lemma horizontal_negate:
  assumes "my_piece pl \<in> set pieces" "pieces_only state"
  shows "horizontal pl (swap_board state) = map_option (map_option uminus) (horizontal pl state)"
  unfolding horizontal_def swap_board_def scan_map getitem_map scan_negate [symmetric]
proof (intro scan_cong run_check_negate assms(1))
  fix row i x
  assume "row \<in> set state" "getitem row i = Some x"
  with assms(2) show "x \<in> insert (CHR '' '') (set pieces)"
    unfolding pieces_only_def by (blast dest: getitem_member)
qed

lemma vertical_negate:
  assumes "my_piece pl \<in> set pieces" "pieces_only state"
  shows "vertical pl (swap_board state) = map_option (map_option uminus) (vertical pl state)"
  unfolding vertical_def swap_board_def cell_map scan_negate [symmetric]
  by (intro scan_cong run_check_negate assms(1) cell_pieces_only [OF assms(2)])

lemma diagonal_down_negate:
  assumes "my_piece pl \<in> set pieces" "pieces_only state"
  shows "diagonal_down pl (swap_board state) =
    map_option (map_option uminus) (diagonal_down pl state)"
  unfolding diagonal_down_def swap_board_def cell_map scan_negate [symmetric]
  by (intro scan_cong run_check_negate assms(1) cell_pieces_only [OF assms(2)])

lemma diagonal_up_negate:
  assumes "my_piece pl \<in> set pieces" "pieces_only state"
  shows "diagonal_up pl (swap_board state) =
    map_option (map_option uminus) (diagonal_up pl state)"
  unfolding diagonal_up_def swap_board_def cell_map scan_negate [symmetric]
  by (intro scan_cong run_check_negate assms(1) cell_pieces_only [OF assms(2)])

lemma box_negate:
  assumes "my_piece pl \<in> set pieces" "pieces_only state"
  shows "box pl (swap_board state) = map_option (map_option uminus) (box pl state)"
  unfolding box_def swap_board_def cell_map scan_negate [symmetric]
  by (intro scan_cong box_check_negate assms(1) cell_pieces_only [OF assms(2)])

lemma game_value_negate:
  assumes "my_piece pl \<in> set pieces" "pieces_only state"
  shows "game_value pl (swap_board state) = map_option uminus (game_value pl state)"
proof -
  have "scan (\<lambda>check. check pl (swap_board state))
          [horizontal, vertical, diagonal_down, diagonal_up, box] =
        scan (\<lambda>check. map_option (map_option uminus) (check pl state))
          [horizontal, vertical, diagonal_down, diagonal_up, box]"
    by (rule scan_cong)
      (auto simp: horizontal_negate [OF assms] vertical_negate [OF assms]
        diagonal_down_negate [OF assms] diagonal_up_negate [OF assms] box_negate [OF assms])
  then show ?thesis
    unfolding game_value_def scan_negate
    by (auto split: option.splits)
qed

lemma swap_player_piece:
  assumes "valid_player pl"
  shows "my_piece (swap_player pl) = swap_piece (my_piece pl)"
  using assms by (auto simp: valid_player_def swap_player_def swap_piece_def pieces_def)

text \<open>
  Claim C8, as amended. For a player built by \<^verbatim>\<open>__init__\<close> and a board that holds
  only \<^verbatim>\<open>'b'\<close>, \<^verbatim>\<open>'r'\<close> and \<^verbatim>\<open>' '\<close>: exchanging the two colours on the
  board and exchanging the player's piece with the opponent's at the same time leaves the
  result of \<^verbatim>\<open>game_value\<close> as it is; exchanging only the colours on the board, or
  only the two pieces of the player, negates it.
\<close>

theorem game_value_swap:
  assumes "valid_player pl" and "pieces_only state"
  shows "game_value (swap_player pl) (swap_board state) = game_value pl state
    \<and> game_value pl (swap_board state) = map_option uminus (game_value pl state)
    \<and> game_value (swap_player pl) state = map_option uminus (game_value pl state)"
proof -
  note both = game_value_both [OF swap_player_piece [OF assms(1)]]
  from assms(1) have "my_piece pl \<in> set pieces"
    by (simp add: valid_player_def)
  then have neg: "game_value pl (swap_board state) = map_option uminus (game_value pl state)"
    using assms(2) by (rule game_value_negate)
  have "game_value (swap_player pl) state =
      game_value (swap_player pl) (swap_board (swap_board state))"
    by (simp add: swap_board_twice)
  also have "\<dots> = game_value pl (swap_board state)"
    by (rule both)
  finally show ?thesis
    using both [of state] neg by simp
qed

theorem game_value_swap_witness:
  "valid_player (black 0) \<and> pieces_only (top_row (CHR ''b''))
   \<and> game_value (swap_player (black 0)) (swap_board (top_row (CHR ''b''))) =
       game_value (black 0) (top_row (CHR ''b''))
   \<and> game_value (black 0) (swap_board (top_row (CHR ''b''))) =
       map_option uminus (game_value (black 0) (top_row (CHR ''b'')))
   \<and> game_value (swap_player (black 0)) (top_row (CHR ''b'')) =
       map_option uminus (game_value (black 0) (top_row (CHR ''b'')))"
proof -
  have vp: "valid_player (black 0)"
    by code_simp
  have po: "pieces_only (top_row (CHR ''b''))"
    by (simp add: pieces_only_def top_row_def pieces_def)
  from game_value_swap [OF vp po] vp po show ?thesis
    by blast
qed

text \<open>
  Black wins on the board with four black pieces in the top row; after both exchanges red
  is the player's piece and holds the top row, and the result is 1 again, not -1.
\<close>

theorem game_value_swap_counterexample:
  "game_value (black 0) (top_row (CHR ''b'')) = Some 1
   \<and> game_value (swap_player (black 0)) (swap_board (top_row (CHR ''b''))) = Some 1
   \<and> game_value (swap_player (black 0)) (swap_board (top_row (CHR ''b''))) \<noteq>
       map_option uminus (game_value (black 0) (top_row (CHR ''b'')))"
  by code_simp

section \<open>Heuristic evaluation: the weighted sum and its gate\<close>

lemma accumulate_total:
  "(\<And>x v. x \<in> set xs \<Longrightarrow> f v x = Some (v + g x)) \<Longrightarrow>
   accumulate f v xs = Some (v + sum_list (map g xs))"
  by (induction xs arbitrary: v) (auto simp: add.assoc)

lemma wf_weight: "wf_board weight"
  by (simp add: wf_board_def weight_def Let_def)

lemma heuristic_step_wf:
  assumes "wf_board state" "row \<in> set (range1 5)" "col \<in> set (range1 5)"
  shows "heuristic_step pl state row v col =
    Some (v + (if cell state row col = Some (my_piece pl) then table_weight row col
               else if cell state row col = Some (opp pl) then - table_weight row col
               else 0))"
  using assms
  by (simp add: heuristic_step_def cell_wf wf_weight set_range1 table_weight_def)

lemma heuristic_game_value_wf:
  assumes "wf_board state"
  shows "heuristic_game_value pl state =
    Some (if drop_phase_check pl < 3 then weighted_sum table_weight pl state else 0)"
proof -
  have "accumulate (heuristic_step pl state row) v (range1 5) =
      Some (v + (\<Sum>c\<leftarrow>range1 5.
        if cell state row c = Some (my_piece pl) then table_weight row c
        else if cell state row c = Some (opp pl) then - table_weight row c
        else 0))"
    if "row \<in> set (range1 5)" for row v
    by (rule accumulate_total) (rule heuristic_step_wf [OF assms that])
  then have "accumulate (\<lambda>v row. accumulate (heuristic_step pl state row) v (range1 5)) 0
      (range1 5) = Some (0 + weighted_sum table_weight pl state)"
    unfolding weighted_sum_def by (rule accumulate_total)
  then show ?thesis
    by (simp add: heuristic_game_value_def)
qed

lemma int_04: "r \<in> {0..4} \<Longrightarrow> r = 0 \<or> r = 1 \<or> r = 2 \<or> r = 3 \<or> r = (4::int)"
  by auto

lemma table_weight_bounds:
  assumes "r \<in> {0..4}" "c \<in> {0..4}"
  shows "0 \<le> table_weight r c \<and> table_weight r c \<le> 1 / 5"
  using int_04 [OF assms(1)] int_04 [OF assms(2)]
  by (elim disjE) (simp_all add: table_weight_def weight_def Let_def)

lemma sum_indicator:
  "(\<Sum>c\<leftarrow>cols. if P c then k else 0) = k * real (length (filter P cols))"
  by (induction cols) (simp_all add: algebra_simps)

lemma sum_indicator_product:
  "(\<Sum>r\<leftarrow>rows. \<Sum>c\<leftarrow>cols. if P r c then k else 0) =
   k * real (length (filter (\<lambda>(r, c). P r c) (List.product rows cols)))"
  by (induction rows) (simp_all add: sum_indicator filter_map comp_def algebra_simps)

lemma sum_indicator_board:
  assumes "wf_board state"
  shows "(\<Sum>r\<leftarrow>range1 5. \<Sum>c\<leftarrow>range1 5. if state ! nat r ! nat c = x then k else 0) =
    k * real (count_list (concat state) x)"
  unfolding sum_indicator_product count_board [OF assms] ..

lemma weighted_sum_upper:
  assumes "wf_board state"
  shows "weighted_sum table_weight pl state \<le>
    1 / 5 * real (count_list (concat state) (my_piece pl))"
  unfolding weighted_sum_def sum_indicator_board [OF assms, symmetric]
proof (intro sum_list_mono)
  fix r c
  assume "r \<in> set (range1 5)" "c \<in> set (range1 5)"
  then have rc: "r \<in> {0..4}" "c \<in> {0..4}"
    by (simp_all add: set_range1)
  with assms have "cell state r c = Some (state ! nat r ! nat c)"
    by (simp add: cell_wf)
  with table_weight_bounds [OF rc]
  show "(if cell state r c = Some (my_piece pl) then table_weight r c
         else if cell state r c = Some (opp pl) then - table_weight r c else 0)
    \<le> (if state ! nat r ! nat c = my_piece pl then 1 / 5 else 0)"
    by auto
qed

lemma weighted_sum_lower:
  assumes "wf_board state"
  shows "- (1 / 5) * real (count_list (concat state) (opp pl)) \<le>
    weighted_sum table_weight pl state"
  unfolding weighted_sum_def sum_indicator_board [OF assms, symmetric]
proof (intro sum_list_mono)
  fix r c
  assume "r \<in> set (range1 5)" "c \<in> set (range1 5)"
  then have rc: "r \<in> {0..4}" "c \<in> {0..4}"
    by (simp_all add: set_range1)
  with assms have "cell state r c = Some (state ! nat r ! nat c)"
    by (simp add: cell_wf)
  with table_weight_bounds [OF rc]
  show "(if state ! nat r ! nat c = opp pl then - (1 / 5) else 0)
    \<le> (if cell state r c = Some (my_piece pl) then table_weight r c
         else if cell state r c = Some (opp pl) then - table_weight r c else 0)"
    by auto
qed

text \<open>
  Claim C9. On a 5x5 board with at most four \<^verbatim>\<open>'b'\<close> and at most four \<^verbatim>\<open>'r'\<close>,
  for a player built by \<^verbatim>\<open>__init__\<close>, \<^verbatim>\<open>heuristic_game_value\<close> returns a score
  of absolute value below 1 (over the reals: at most four weights of at most 0.2 are added
  and at most four are subtracted).
\<close>

theorem heuristic_below_one:
  assumes "wf_board state" and "valid_player pl"
    and "count_list (concat state) (CHR ''b'') \<le> 4"
    and "count_list (concat state) (CHR ''r'') \<le> 4"
  shows "\<exists>h. heuristic_game_value pl state = Some h \<and> \<bar>h\<bar> < 1"
proof -
  from assms(2-4) have "count_list (concat state) (my_piece pl) \<le> 4"
    and "count_list (concat state) (opp pl) \<le> 4"
    by (auto simp: valid_player_def pieces_def)
  then have "real (count_list (concat state) (my_piece pl)) \<le> 4"
    and "real (count_list (concat state) (opp pl)) \<le> 4"
    by simp_all
  with weighted_sum_upper [OF assms(1), of pl] weighted_sum_lower [OF assms(1), of pl]
  have "\<bar>weighted_sum table_weight pl state\<bar> < 1"
    by linarith
  then show ?thesis
    by (simp add: heuristic_game_value_wf [OF assms(1)])
qed

theorem heuristic_below_one_witness:
  "wf_board drop_position \<and> valid_player (black 1)
   \<and> count_list (concat drop_position) (CHR ''b'') \<le> 4
   \<and> count_list (concat drop_position) (CHR ''r'') \<le> 4
   \<and> (\<exists>h. heuristic_game_value (black 1) drop_position = Some h \<and> \<bar>h\<bar> < 1)"
proof -
  have wf: "wf_board drop_position"
    by (simp add: wf_board_def drop_position_def)
  have vp: "valid_player (black 1)"
    by code_simp
  have b: "count_list (concat drop_position) (CHR ''b'') \<le> 4"
    and r: "count_list (concat drop_position) (CHR ''r'') \<le> 4"
    by (simp_all add: drop_position_def)
  from heuristic_below_one [OF wf vp b r] wf vp b r show ?thesis
    by blast
qed

lemma table_weight_rings:
  assumes "r \<in> {0..4}" "c \<in> {0..4}"
  shows "table_weight r c =
    (if r = 2 \<and> c = 2 then 0.05
     else if 1 \<le> r \<and> r \<le> 3 \<and> 1 \<le> c \<and> c \<le> 3 then 0.1
     else 0.2)"
  using int_04 [OF assms(1)] int_04 [OF assms(2)]
  by (elim disjE) (simp_all add: table_weight_def weight_def Let_def)

text \<open>
  Claim C3, as amended. On a 5x5 board \<^verbatim>\<open>heuristic_game_value\<close> returns the weighted
  sum of its table when the phase counter is below 3, and 0 for every other value of the
  counter; so it is active on the agent's first move only, not in the whole placement
  phase (counter below 9).
\<close>

theorem heuristic_gate:
  assumes "wf_board state"
  shows "heuristic_game_value pl state =
    Some (if drop_phase_check pl < 3 then weighted_sum table_weight pl state else 0)"
  using assms by (rule heuristic_game_value_wf)

theorem heuristic_gate_witness:
  "wf_board drop_position
   \<and> heuristic_game_value (black 1) drop_position =
       Some (weighted_sum table_weight (black 1) drop_position)
   \<and> heuristic_game_value (black 7) drop_position = Some 0"
proof -
  have wf: "wf_board drop_position"
    by (simp add: wf_board_def drop_position_def)
  from heuristic_gate [OF wf, of "black 1"] heuristic_gate [OF wf, of "black 7"] wf
  show ?thesis
    by (simp add: black_def)
qed

text \<open>
  With the counter at 7 the game is in its placement phase, and the heuristic returns 0
  on a board whose weighted sum is not 0, under the table of the source and under the
  documented weights alike.
\<close>

theorem heuristic_gate_counterexample:
  "drop_phase_check (black 7) < 9
   \<and> heuristic_game_value (black 7) drop_position = Some 0
   \<and> weighted_sum table_weight (black 7) drop_position = - 0.2
   \<and> weighted_sum claimed_weight (black 7) drop_position = 0.1"
  by code_simp

text \<open>
  Claim C2, evaluated on the code. With the heuristic active, a single black piece at the
  centre scores 0.05 and a single black piece in a corner scores 0.2; the claim, like the
  docstring of the function, gives 0.2 to the centre and 0.05 to the border. A piece at
  the centre and one on the ring around it score 0.15, where the documented weights give
  0.3.
\<close>

theorem heuristic_weights_inverted:
  "heuristic_game_value (black 1) centre_only = Some 0.05
   \<and> weighted_sum claimed_weight (black 1) centre_only = 0.2
   \<and> heuristic_game_value (black 1) corner_only = Some 0.2
   \<and> weighted_sum claimed_weight (black 1) corner_only = 0.05
   \<and> heuristic_game_value (black 1) centre_and_ring = Some 0.15
   \<and> weighted_sum claimed_weight (black 1) centre_and_ring = 0.3"
  by code_simp

section \<open>Search: bounds and the minimizing loop\<close>

lemma heuristic_off: "3 \<le> drop_phase_check pl \<Longrightarrow> heuristic_game_value pl state = Some 0"
  by (simp add: heuristic_game_value_def)

lemma succ_wf:
  assumes "wf_board state"
  shows "\<exists>ys. succ pl state p = Some ys \<and> (\<forall>(m, s') \<in> set ys. wf_board s')"
proof (cases "drop_phase_check pl < 9")
  case True
  from succ_drop [OF assms True, of p] assms show ?thesis
    by (auto simp: wf_board_put)
next
  case False
  then have "9 \<le> drop_phase_check pl" by simp
  from succ_slide [OF assms this, of p] assms show ?thesis
    by (auto simp: slides_def wf_board_put)
qed

lemma leaf_value:
  assumes "wf_board state" "3 \<le> drop_phase_check pl"
  shows "\<exists>v. min_value pl state 0 a b = Some v \<and> v \<le> 1"
  using game_value_range [OF assms(1), of pl] assms(2)
  by (auto simp: heuristic_off)

lemma max_loop_bound:
  assumes "\<forall>(m, s') \<in> set ys. wf_board s'" "3 \<le> drop_phase_check pl"
  shows "\<exists>v. max_loop pl ys 0 a b = Some v \<and> v \<le> max a 1"
  using assms(1)
proof (induction ys arbitrary: a)
  case Nil
  then show ?case by simp
next
  case (Cons y ys)
  obtain m s' where y: "y = (m, s')" by (cases y)
  with Cons.prems have "wf_board s'" by simp
  from leaf_value [OF this assms(2), of a b]
  obtain v where v: "min_value pl s' 0 a b = Some v" "v \<le> 1" by blast
  from Cons.prems have "\<forall>(m, s') \<in> set ys. wf_board s'" by simp
  from Cons.IH [OF this, of "max a v"]
  obtain w where w: "max_loop pl ys 0 (max a v) b = Some w" "w \<le> max (max a v) 1" by blast
  show ?case
  proof (cases "b \<le> max a v")
    case True
    with v y show ?thesis by auto
  next
    case False
    with v w y show ?thesis by auto
  qed
qed

lemma max_value_bound:
  assumes "wf_board state" "3 \<le> drop_phase_check pl"
  shows "\<exists>v. max_value pl state 1 a b = Some v \<and> v \<le> max a 1"
proof -
  from succ_wf [OF assms(1), of pl "my_piece pl"]
  obtain ys where ys: "succ pl state (my_piece pl) = Some ys" "\<forall>(m, s') \<in> set ys. wf_board s'"
    by blast
  from max_loop_bound [OF ys(2) assms(2), of a b]
  obtain v where "max_loop pl ys 0 a b = Some v" "v \<le> max a 1" by blast
  with ys(1) game_value_range [OF assms(1), of pl] show ?thesis
    by (auto simp: heuristic_off [OF assms(2)])
qed

lemma min_loop_bound:
  assumes "wf_board state" "3 \<le> drop_phase_check pl"
  shows "\<exists>v. min_loop pl state ys 1 a b = Some v \<and> v \<le> max a b
     \<and> (ys \<noteq> [] \<longrightarrow> v \<le> max a 1)"
proof (induction ys arbitrary: b)
  case Nil
  then show ?case by simp
next
  case (Cons y ys)
  obtain m s' where y: "y = (m, s')" by (cases y)
  from max_value_bound [OF assms, of a b]
  obtain v where v: "max_value pl state 1 a b = Some v" "v \<le> max a 1" by blast
  from Cons.IH [of "min b v"]
  obtain w where w: "min_loop pl state ys 1 a (min b v) = Some w" "w \<le> max a (min b v)"
    by blast
  show ?case
  proof (cases "min b v \<le> a")
    case True
    with v y show ?thesis by auto
  next
    case False
    with v w y show ?thesis by auto
  qed
qed

lemma min_value_bound:
  assumes "wf_board state" "3 \<le> drop_phase_check pl"
    and "succ pl state (opp pl) \<noteq> Some []"
  shows "\<exists>v. min_value pl state 2 (- 1000) 1000 = Some v \<and> v \<le> 1"
proof -
  from succ_wf [OF assms(1), of pl "opp pl"] assms(3)
  obtain ys where ys: "succ pl state (opp pl) = Some ys" "ys \<noteq> []"
    by auto
  from min_loop_bound [OF assms(1,2), of ys "- 1000" 1000] ys(2)
  obtain v where "min_loop pl state ys 1 (- 1000) 1000 = Some v" "v \<le> 1"
    by auto
  with ys(1) game_value_range [OF assms(1), of pl] show ?thesis
    by (auto simp: heuristic_off [OF assms(2)])
qed

lemma best_of_keeps_first:
  assumes "min_value pl s0 2 (- 1000) 1000 = Some w"
    and "\<forall>(m, s) \<in> set ys. \<exists>v. min_value pl s 2 (- 1000) 1000 = Some v \<and> v \<le> w"
  shows "best_of pl (m0, s0) ys = Some m0"
  using assms(2)
proof (induction ys)
  case Nil
  then show ?case by simp
next
  case (Cons y ys)
  obtain m s where y: "y = (m, s)" by (cases y)
  with Cons.prems obtain v where "min_value pl s 2 (- 1000) 1000 = Some v" "v \<le> w"
    by auto
  moreover from Cons have "best_of pl (m0, s0) ys = Some m0" by simp
  ultimately show ?case
    using assms(1) y by simp
qed

lemma min_loop_stuck:
  assumes "max_value pl state d a b = Some b" "a < b"
  shows "min_loop pl state ys d a b = Some b"
  using assms by (induction ys) auto

lemma min_value_parent_only:
  assumes "game_value pl state = Some 0"
    and "succ pl state (opp pl) = Some (y # ys)"
    and "max_value pl state d a b = Some v" "a < v" "v \<le> b"
    and "max_value pl state d a v = Some v"
  shows "min_value pl state (Suc d) a b = Some v"
proof -
  obtain m s' where y: "y = (m, s')" by (cases y)
  from assms(4,5) have "min b v = v" "\<not> v \<le> a" by simp_all
  with assms(3) y have "min_loop pl state (y # ys) d a b = min_loop pl state ys d a v"
    by simp
  also have "\<dots> = Some v"
    using assms(6,4) by (rule min_loop_stuck)
  finally show ?thesis
    using assms(1,2) by simp
qed

text \<open>
  The loop of \<^verbatim>\<open>min_value\<close> reads the list of successors only for its length: two
  lists of the same length give the same result.
\<close>

lemma min_loop_length:
  "length ys = length ys' \<Longrightarrow> min_loop pl state ys d a b = min_loop pl state ys' d a b"
proof (induction ys arbitrary: ys' b)
  case Nil
  then show ?case by simp
next
  case (Cons y ys)
  then obtain y' zs where ys': "ys' = y' # zs" "length ys = length zs"
    by (cases ys') auto
  obtain m s n t where "y = (m, s)" "y' = (n, t)"
    by (cases y, cases y')
  with Cons.IH [OF ys'(2)] ys' show ?case
    by (auto split: option.splits)
qed

lemma succ_nonempty:
  assumes "wf_board state" "drop_phase_check pl < 9"
    and "0 < count_list (concat state) (CHR '' '')"
  shows "\<exists>y ys. succ pl state p = Some (y # ys)"
proof -
  let ?cells = "filter (\<lambda>(r, c). state ! nat r ! nat c = CHR '' '')
                  (List.product (range1 5) (range1 5))"
  from count_board [OF assms(1), of "CHR '' ''"] assms(3) have "?cells \<noteq> []"
    by auto
  then obtain x xs where "?cells = x # xs"
    by (cases ?cells) auto
  with succ_drop [OF assms(1,2), of p] show ?thesis
    by simp
qed

lemma black_bump: "bump_phase (black 5) = black 7"
  by (simp add: bump_phase_def black_def init_player_def)

lemma threat_1: "game_value (black 7) threat_position = Some 0"
  by code_simp

lemma threat_2: "max_value (black 7) threat_position 1 (- 1000) 1000 = Some 1"
  by code_simp

lemma threat_3: "max_value (black 7) threat_position 1 (- 1000) 1 = Some 1"
  by code_simp

lemma threat_4: "wf_board threat_position \<and> 0 < count_list (concat threat_position) (CHR '' '')
  \<and> drop_phase_check (black 7) < 9 \<and> opp (black 7) = CHR ''r''"
  by code_simp

lemma threat_5:
  "cell threat_position 3 4 = Some (CHR '' '')
   \<and> game_value (black 7) (put threat_position 3 4 (CHR ''r'')) = Some (- 1)
   \<and> max_value (black 7) (put threat_position 3 4 (CHR ''r'')) 1 (- 1000) 1000 = Some (- 1)"
  by code_simp

lemma threat_6:
  "map_option (\<lambda>ys. ([(3, 4)], put threat_position 3 4 (CHR ''r'')) \<in> set ys)
      (succ (black 7) threat_position (opp (black 7))) = Some True"
  by code_simp

text \<open>
  Claim C1, evaluated on the code. Black has just placed its fourth piece and red, to
  move, completes the right-hand column by placing at (3,4): that successor is generated,
  and evaluated as a maximizing node at depth 1 it is worth -1, so the running minimum of
  the claim is -1. \<^verbatim>\<open>min_value\<close> at depth 2 returns 1: each iteration of its loop
  evaluates the parent state, on which black still has a winning placement, and never
  the successor.
\<close>

theorem min_value_ignores_successor:
  "min_value (black 7) threat_position 2 (- 1000) 1000 = Some 1
   \<and> map_option (\<lambda>ys. ([(3, 4)], put threat_position 3 4 (CHR ''r'')) \<in> set ys)
       (succ (black 7) threat_position (opp (black 7))) = Some True
   \<and> max_value (black 7) (put threat_position 3 4 (CHR ''r'')) 1 (- 1000) 1000 = Some (- 1)"
proof -
  from threat_4 succ_nonempty [of threat_position "black 7" "CHR ''r''"]
  obtain y ys where "succ (black 7) threat_position (opp (black 7)) = Some (y # ys)"
    by auto
  from min_value_parent_only [OF threat_1 this threat_2 _ _ threat_3]
  have "min_value (black 7) threat_position 2 (- 1000) 1000 = Some 1"
    by (simp add: numeral_2_eq_2)
  with threat_5 threat_6 show ?thesis
    by simp
qed

lemma drop_cells:
  "filter (\<lambda>(r, c). drop_position ! nat r ! nat c = CHR '' '')
     (List.product (range1 5) (range1 5)) =
   [(0, 0), (0, 1), (0, 2), (0, 3), (1, 0), (1, 2), (1, 3), (1, 4), (2, 0), (2, 2), (2, 3),
    (2, 4), (3, 0), (3, 2), (3, 4), (4, 0), (4, 2), (4, 3), (4, 4)]"
  by code_simp

lemma drop_facts:
  "wf_board drop_position \<and> count_list (concat drop_position) (CHR '' '') = 19
   \<and> drop_phase_check (black 7) < 9 \<and> 3 \<le> drop_phase_check (black 7)
   \<and> opp (black 7) = CHR ''r'' \<and> my_piece (black 7) = CHR ''b''"
  by code_simp

lemma first_1: "game_value (black 7) (put drop_position 0 0 (CHR ''b'')) = Some 0"
  by code_simp

lemma first_2:
  "max_value (black 7) (put drop_position 0 0 (CHR ''b'')) 1 (- 1000) 1000 = Some 1"
  by code_simp

lemma first_3:
  "max_value (black 7) (put drop_position 0 0 (CHR ''b'')) 1 (- 1000) 1 = Some 1"
  by code_simp

lemma winning_cell:
  "cell drop_position 0 1 = Some (CHR '' '')
   \<and> game_value (black 7) (put drop_position 0 1 (CHR ''b'')) = Some 1"
  by code_simp

lemma after_drop:
  assumes "r \<in> {0..4}" "c \<in> {0..4}"
  shows "wf_board (put drop_position r c (CHR ''b''))"
    and "\<exists>y ys. succ (black 7) (put drop_position r c (CHR ''b'')) p = Some (y # ys)"
proof -
  from drop_facts have wf: "wf_board drop_position" by simp
  then show wf': "wf_board (put drop_position r c (CHR ''b''))"
    by (rule wf_board_put)
  from count_put [OF wf assms, of "CHR ''b''" "CHR '' ''"] drop_facts
  have "0 < count_list (concat (put drop_position r c (CHR ''b''))) (CHR '' '')"
    by (simp split: if_splits)
  with wf' drop_facts show "\<exists>y ys. succ (black 7) (put drop_position r c (CHR ''b'')) p
      = Some (y # ys)"
    by (intro succ_nonempty) simp_all
qed

text \<open>
  Claim C4, evaluated on the code. Black, with three pieces in column 1 and the counter
  at 5, wins by placing at (0,1). \<^verbatim>\<open>make_move\<close> returns the placement at (0,0): every
  successor is scored 1 or less, the first one is scored 1 because \<^verbatim>\<open>min_value\<close>
  searches the parent state, on which the winning placement is still open, and a later
  successor replaces the best one only when its score is strictly greater.
\<close>

theorem make_move_misses_win:
  "cell drop_position 0 1 = Some (CHR '' '')
   \<and> game_value (black 7) (put drop_position 0 1 (CHR ''b'')) = Some 1
   \<and> make_move (black 5) drop_position = (black 7, Some [(0, 0)])"
proof -
  let ?f = "\<lambda>(r, c). ([(r, c)], put drop_position r c (CHR ''b''))"
  let ?rest = "[(0, 1), (0, 2), (0, 3), (1, 0), (1, 2), (1, 3), (1, 4), (2, 0), (2, 2), (2, 3),
    (2, 4), (3, 0), (3, 2), (3, 4), (4, 0), (4, 2), (4, 3), (4, 4)] :: coord list"
  from drop_facts have wf: "wf_board drop_position" and ph: "drop_phase_check (black 7) < 9"
    and late: "3 \<le> drop_phase_check (black 7)"
    by simp_all
  have succs: "succ (black 7) drop_position (my_piece (black 7)) =
      Some (map ?f ((0, 0) # ?rest))"
    using succ_drop [OF wf ph, of "CHR ''b''"] drop_facts unfolding drop_cells by simp
  from after_drop(2) [of 0 0 "opp (black 7)"]
  obtain y ys where "succ (black 7) (put drop_position 0 0 (CHR ''b'')) (opp (black 7))
      = Some (y # ys)"
    by auto
  from min_value_parent_only [OF first_1 this first_2 _ _ first_3]
  have first: "min_value (black 7) (put drop_position 0 0 (CHR ''b'')) 2 (- 1000) 1000 = Some 1"
    by (simp add: numeral_2_eq_2)
  have inside: "\<forall>(r, c) \<in> set ((0, 0) # ?rest). r \<in> {0..4} \<and> c \<in> {0..4}"
    by simp
  have others: "\<forall>(m, s) \<in> set (map ?f ((0, 0) # ?rest)).
      \<exists>v. min_value (black 7) s 2 (- 1000) 1000 = Some v \<and> v \<le> 1"
  proof (clarify)
    fix m s
    assume "(m, s) \<in> set (map ?f ((0, 0) # ?rest))"
    then obtain x where x: "x \<in> set ((0, 0) # ?rest)" "(m, s) = ?f x"
      unfolding set_map by (rule imageE)
    obtain r c where xrc: "x = (r, c)" by (cases x)
    with x(1) inside have "r \<in> {0..4}" "c \<in> {0..4}"
      by blast+
    moreover from x(2) xrc have "s = put drop_position r c (CHR ''b'')"
      by simp
    ultimately have rc: "r \<in> {0..4}" "c \<in> {0..4}" "s = put drop_position r c (CHR ''b'')" .
    from after_drop(2) [OF rc(1,2), of "opp (black 7)"]
    have "succ (black 7) s (opp (black 7)) \<noteq> Some []"
      unfolding rc(3) by auto
    with after_drop(1) [OF rc(1,2)] late
    show "\<exists>v. min_value (black 7) s 2 (- 1000) 1000 = Some v \<and> v \<le> 1"
      unfolding rc(3) by (intro min_value_bound)
  qed
  have "best_of (black 7) ([(0, 0)], put drop_position 0 0 (CHR ''b''))
      (map ?f ((0, 0) # ?rest)) = Some [(0, 0)]"
    using first others by (rule best_of_keeps_first)
  then have "make_move (black 5) drop_position = (black 7, Some [(0, 0)])"
    using succs by (simp add: make_move_def black_bump Let_def)
  with winning_cell show ?thesis
    by simp
qed

end
